theory Spec2Isabelle
  imports Main "HOL-Library.Word" "HOL-Library.Monad_Syntax"
begin

section \<open>Characters and C strings\<close>

text \<open>
  A byte is a \<^typ>\<open>char\<close>; its value \<open>of_char c\<close> lies in \<open>0..255\<close>, as the
  argument of the \<open>ctype.h\<close> functions must. The program never calls \<open>setlocale\<close>,
  so \<open>isalpha\<close> and \<open>tolower\<close> are those of the "C" locale: the 52 ASCII letters.

  Assumption: a \<open>char\<close> read from a string is taken as its unsigned value. Where the
  compiler makes \<open>char\<close> signed, a byte from \<open>0x80\<close> on reaches \<open>tolower\<close> as a negative
  \<open>int\<close>, outside the domain the C standard gives that function, and what is added to
  the hash is then the library's choice (byte \<open>0xFF\<close> adds \<open>-1\<close> with glibc, where the model
  adds \<open>255\<close>). Both readings agree on the bytes \<open>0x00..0x7F\<close>, hence on every word that
  \<open>process_file\<close> passes on, which consists of lowercase ASCII letters.

  A \<open>const char *\<close> is modelled by the bytes found from the pointer on; the string it
  denotes ends before the first NUL byte, or at the end of the list when there is none
  (the terminator is then implicit).
\<close>

definition NUL :: char where
  "NUL = CHR 0x00"

definition isupper :: "char \<Rightarrow> bool" where
  "isupper c = (65 \<le> (of_char c :: nat) \<and> (of_char c :: nat) \<le> 90)"

definition islower :: "char \<Rightarrow> bool" where
  "islower c = (97 \<le> (of_char c :: nat) \<and> (of_char c :: nat) \<le> 122)"

definition isalpha :: "char \<Rightarrow> bool" where
  "isalpha c = (isupper c \<or> islower c)"

definition tolower :: "char \<Rightarrow> char" where
  "tolower c = (if isupper c then char_of (of_char c + (32::nat)) else c)"

text \<open>The bytes of the C string that starts at the head of the list.\<close>

definition cstr :: "string \<Rightarrow> string" where
  "cstr s = takeWhile (\<lambda>c. c \<noteq> NUL) s"

definition strlen :: "string \<Rightarrow> nat" where
  "strlen s = length (cstr s)"

definition strdup :: "string \<Rightarrow> string" where
  "strdup s = cstr s"

text \<open>
  \<open>strcasecmp\<close> (POSIX): the difference of the first pair of bytes that differ after
  \<open>tolower\<close>, zero when both strings end together.
\<close>

fun strcasecmp :: "string \<Rightarrow> string \<Rightarrow> int" where
  "strcasecmp [] [] = 0"
| "strcasecmp [] (y # ys) = - int (of_char (tolower y))"
| "strcasecmp (x # xs) [] = int (of_char (tolower x))"
| "strcasecmp (x # xs) (y # ys) =
     (if tolower x \<noteq> tolower y then int (of_char (tolower x)) - int (of_char (tolower y))
      else if x = NUL then 0
      else strcasecmp xs ys)"

section \<open>The hash function\<close>

text \<open>
  \<open>unsigned long\<close> and \<open>size_t\<close> are 64-bit words (LP64); \<open>hash << 5\<close> and the
  additions wrap.
  \<open>hash_loop\<close> is the \<open>while ((c = *str++))\<close> loop, \<open>hash\<close> its accumulator. The
  byte enters the sum by its unsigned value (the assumption stated above).
\<close>

type_synonym ulong = "64 word"

fun hash_loop :: "ulong \<Rightarrow> string \<Rightarrow> ulong" where
  "hash_loop hash [] = hash"
| "hash_loop hash (c # str) =
     (if c = NUL then hash
      else hash_loop ((push_bit 5 hash + hash) + of_nat (of_char (tolower c))) str)"

definition hash_string :: "string \<Rightarrow> ulong" where
  "hash_string str = hash_loop 5381 str"

section \<open>The environment\<close>

text \<open>
  What the program reads and writes besides the table: the files it may open, the
  outcome of its coming allocation requests (\<open>malloc\<close>, \<open>calloc\<close>, \<open>strdup\<close>; a request
  beyond the list succeeds), the indeterminate bytes an uninitialised array holds, and
  the lines written to the standard error and output streams.
\<close>

record env =
  files :: "(string \<times> string) list"
  allocs :: "bool list"
  junk :: string
  stderr :: "string list"
  stdout :: "string list"

definition alloc :: "env \<Rightarrow> bool \<times> env" where
  "alloc e = (case allocs e of [] \<Rightarrow> (True, e) | ok # rest \<Rightarrow> (ok, e\<lparr>allocs := rest\<rparr>))"

text \<open>
  \<open>perror msg\<close> writes \<open>msg\<close>, a colon and the text of \<open>errno\<close>; the model records
  the line by \<open>msg\<close>.
\<close>

definition perror :: "string \<Rightarrow> env \<Rightarrow> env" where
  "perror msg e = e\<lparr>stderr := stderr e @ [msg]\<rparr>"

definition eprint :: "string \<Rightarrow> env \<Rightarrow> env" where
  "eprint line e = e\<lparr>stderr := stderr e @ [line]\<rparr>"

definition print :: "string \<Rightarrow> env \<Rightarrow> env" where
  "print line e = e\<lparr>stdout := stdout e @ [line]\<rparr>"

definition fopen :: "string \<Rightarrow> env \<Rightarrow> string option" where
  "fopen filename e = map_of (files e) filename"

definition uninit :: "nat \<Rightarrow> env \<Rightarrow> string" where
  "uninit n e = take n (junk e @ replicate n NUL)"

section \<open>The hash table\<close>

text \<open>
  \<open>MIN_WORD_LENGTH\<close>, \<open>MAX_WORD_LENGTH\<close> and \<open>HASH_TABLE_SIZE\<close> are the macros of the
  source. A bucket is the chain of \<open>Node\<close>s from its head pointer: the list of the words
  of its nodes, head first; each node is allocated by \<open>insert_word\<close> and linked into one
  chain only. A result \<open>None\<close> stands for undefined behaviour of the C program: the
  remainder by a zero \<open>size\<close>, an index beyond the \<open>buckets\<close> array, a null \<open>argv[0]\<close>.
\<close>

definition MIN_WORD_LENGTH :: nat where
  "MIN_WORD_LENGTH = 4"

definition MAX_WORD_LENGTH :: nat where
  "MAX_WORD_LENGTH = 64"

definition HASH_TABLE_SIZE :: ulong where
  "HASH_TABLE_SIZE = 16384"

record HashTable =
  buckets :: "string list list"
  size_tab :: ulong

datatype ProcessMode = MODE_ADD | MODE_REMOVE

definition create_hash_table :: "ulong \<Rightarrow> env \<Rightarrow> HashTable option \<times> env" where
  "create_hash_table size_n e =
     (case alloc e of
        (False, e1) \<Rightarrow> (None, e1)
      | (True, e1) \<Rightarrow>
          (case alloc e1 of
             (False, e2) \<Rightarrow> (None, e2)
           | (True, e2) \<Rightarrow> (Some \<lparr>buckets = replicate (unat size_n) [], size_tab = size_n\<rparr>, e2)))"

text \<open>\<open>index = hash_string(word) % table->size\<close>, then the read of \<open>table->buckets[index]\<close>.\<close>

definition bucket_index :: "HashTable \<Rightarrow> string \<Rightarrow> nat option" where
  "bucket_index table word =
     (if size_tab table = 0 then None
      else let index = unat (hash_string word mod size_tab table)
           in if index < length (buckets table) then Some index else None)"

text \<open>The scan of a chain for a node whose word \<open>strcasecmp\<close> finds equal.\<close>

fun chain_has :: "string list \<Rightarrow> string \<Rightarrow> bool" where
  "chain_has [] word = False"
| "chain_has (current # rest) word =
     (if strcasecmp current word = 0 then True else chain_has rest word)"

definition insert_word :: "HashTable \<Rightarrow> string \<Rightarrow> env \<Rightarrow> (HashTable \<times> env) option" where
  "insert_word table word e =
     (case bucket_index table word of
        None \<Rightarrow> None
      | Some index \<Rightarrow>
          if chain_has (buckets table ! index) word then Some (table, e)
          else (case alloc e of
                  (False, e1) \<Rightarrow> Some (table, perror ''Failed to allocate memory for new node'' e1)
                | (True, e1) \<Rightarrow>
                    (case alloc e1 of
                       (False, e2) \<Rightarrow> Some (table, perror ''Failed to duplicate word string'' e2)
                     | (True, e2) \<Rightarrow>
                         Some (table\<lparr>buckets :=
                                 (buckets table)[index := strdup word # buckets table ! index]\<rparr>,
                               e2))))"

text \<open>
  The loop of \<open>remove_word\<close> over \<open>prev\<close> and \<open>current\<close>: the chain without the first
  node whose word matches.
\<close>

fun unlink :: "string list \<Rightarrow> string \<Rightarrow> string list" where
  "unlink [] word = []"
| "unlink (current # rest) word =
     (if strcasecmp current word = 0 then rest else current # unlink rest word)"

definition remove_word :: "HashTable \<Rightarrow> string \<Rightarrow> HashTable option" where
  "remove_word table word =
     (case bucket_index table word of
        None \<Rightarrow> None
      | Some index \<Rightarrow>
          Some (table\<lparr>buckets := (buckets table)[index := unlink (buckets table ! index) word]\<rparr>))"

text \<open>\<open>print_table\<close> writes one line for each word, bucket after bucket from index 0.\<close>

definition enumerate_table :: "HashTable \<Rightarrow> string list option" where
  "enumerate_table table =
     (if unat (size_tab table) \<le> length (buckets table)
      then Some (concat (take (unat (size_tab table)) (buckets table)))
      else None)"

definition print_table :: "HashTable \<Rightarrow> env \<Rightarrow> env option" where
  "print_table table e =
     (case enumerate_table table of
        None \<Rightarrow> None
      | Some ws \<Rightarrow> Some (e\<lparr>stdout := stdout e @ ws\<rparr>))"

section \<open>File processing\<close>

text \<open>The branch on \<open>mode\<close> that \<open>process_file\<close> takes for each word it has read.\<close>

fun dispatch :: "ProcessMode \<Rightarrow> HashTable \<Rightarrow> string \<Rightarrow> env \<Rightarrow> (HashTable \<times> env) option" where
  "dispatch MODE_ADD table word e = insert_word table word e"
| "dispatch MODE_REMOVE table word e = map_option (\<lambda>t. (t, e)) (remove_word table word)"

text \<open>
  The \<open>while ((c = fgetc(file)) != EOF)\<close> loop over the bytes of the file that are still
  to be read, on the state \<open>word_buffer\<close>, \<open>char_index\<close>, the table and the environment.
\<close>

fun read_loop ::
  "ProcessMode \<Rightarrow> string \<Rightarrow> string \<Rightarrow> nat \<Rightarrow> HashTable \<Rightarrow> env \<Rightarrow>
     (string \<times> nat \<times> HashTable \<times> env) option" where
  "read_loop mode [] word_buffer char_index table e = Some (word_buffer, char_index, table, e)"
| "read_loop mode (c # file) word_buffer char_index table e =
     (if isalpha c then
        (if char_index < MAX_WORD_LENGTH - 1
         then read_loop mode file (word_buffer[char_index := tolower c]) (char_index + 1) table e
         else read_loop mode file word_buffer char_index table e)
      else if char_index > 0 then
        (let word_buffer = word_buffer[char_index := NUL] in
         if strlen word_buffer \<ge> MIN_WORD_LENGTH then
           (case dispatch mode table word_buffer e of
              None \<Rightarrow> None
            | Some (table, e) \<Rightarrow> read_loop mode file word_buffer 0 table e)
         else read_loop mode file word_buffer 0 table e)
      else read_loop mode file word_buffer char_index table e)"

text \<open>
  The block after the loop, which processes the last word when the file does not end
  with a delimiter.
\<close>

definition last_word ::
  "ProcessMode \<Rightarrow> string \<Rightarrow> nat \<Rightarrow> HashTable \<Rightarrow> env \<Rightarrow> (HashTable \<times> env) option" where
  "last_word mode word_buffer char_index table e =
     (if char_index > 0 then
        (let word_buffer = word_buffer[char_index := NUL] in
         if strlen word_buffer \<ge> MIN_WORD_LENGTH
         then dispatch mode table word_buffer e
         else Some (table, e))
      else Some (table, e))"

definition process_file ::
  "string \<Rightarrow> HashTable \<Rightarrow> ProcessMode \<Rightarrow> env \<Rightarrow> (HashTable \<times> env) option" where
  "process_file filename table mode e =
     (case fopen filename e of
        None \<Rightarrow>
          Some (table, eprint (''Error: Could not open file '' @ [CHR 0x27] @ filename
                                 @ [CHR 0x27] @ ''.'') e)
      | Some file \<Rightarrow>
          (case read_loop mode file (uninit MAX_WORD_LENGTH e) 0 table e of
             None \<Rightarrow> None
           | Some (word_buffer, char_index, table, e) \<Rightarrow>
               last_word mode word_buffer char_index table e))"

section \<open>The main function\<close>

text \<open>The \<open>for\<close> loop of \<open>main\<close> over \<open>argv[2]\<close>, ..., \<open>argv[argc - 1]\<close>.\<close>

fun exclusion_loop :: "string list \<Rightarrow> HashTable \<Rightarrow> env \<Rightarrow> (HashTable \<times> env) option" where
  "exclusion_loop [] vocabulary e = Some (vocabulary, e)"
| "exclusion_loop (arg # args) vocabulary e =
     (case process_file arg vocabulary MODE_REMOVE
             (print (''Processing exclusion file: '' @ arg) e) of
        None \<Rightarrow> None
      | Some (vocabulary, e) \<Rightarrow> exclusion_loop args vocabulary e)"

text \<open>
  \<open>main\<close> returns the exit status and the environment it leaves. \<open>free_table\<close> releases
  the nodes and the array and has no effect that the model observes.
\<close>

definition main :: "string list \<Rightarrow> env \<Rightarrow> (int \<times> env) option" where
  "main argv e =
     (case argv of
        [] \<Rightarrow> None
      | prog # _ \<Rightarrow>
          if length argv < 3 then
            Some (1, eprint (''Usage: '' @ prog
                     @ '' <source_file> <exclusion_file1> [exclusion_file2] ...'') e)
          else
            (case create_hash_table HASH_TABLE_SIZE e of
               (None, e) \<Rightarrow> Some (1, eprint ''Fatal: Could not create vocabulary hash table.'' e)
             | (Some vocabulary, e) \<Rightarrow>
                 do {
                   (vocabulary, e) \<leftarrow> process_file (argv ! 1) vocabulary MODE_ADD
                                        (print (''Processing source file: '' @ argv ! 1) e);
                   (vocabulary, e) \<leftarrow> exclusion_loop (drop 2 argv) vocabulary e;
                   e \<leftarrow> print_table vocabulary
                          (print ''--- Final Vocabulary ---'' (print [] e));
                   Some (0, e)
                 }))"

section \<open>Well-formed tables and the set invariant\<close>

text \<open>
  \<open>create_hash_table\<close> gives the \<open>buckets\<close> array \<open>size\<close> entries, and \<open>size\<close> is never
  written again; every operation needs it to be non-zero. \<open>index_of\<close> is the bucket
  index \<open>hash(word) mod N\<close> of a word.
\<close>

definition wf_table :: "HashTable \<Rightarrow> bool" where
  "wf_table t = (size_tab t \<noteq> 0 \<and> length (buckets t) = unat (size_tab t))"

definition index_of :: "HashTable \<Rightarrow> string \<Rightarrow> nat" where
  "index_of t w = unat (hash_string w mod size_tab t)"

text \<open>No two entries of a list are equal under case-insensitive comparison.\<close>

fun no_case_dups :: "string list \<Rightarrow> bool" where
  "no_case_dups [] = True"
| "no_case_dups (w # ws) = ((\<forall>u\<in>set ws. strcasecmp w u \<noteq> 0) \<and> no_case_dups ws)"

text \<open>
  The invariant of the word set: every stored word lies in the bucket its hash selects,
  no bucket holds a word twice, and no two stored words are equal up to case.
\<close>

definition table_inv :: "HashTable \<Rightarrow> bool" where
  "table_inv t =
     (wf_table t \<and>
      (\<forall>i<length (buckets t). \<forall>w\<in>set (buckets t ! i). index_of t w = i) \<and>
      (\<forall>i<length (buckets t). distinct (buckets t ! i)) \<and>
      no_case_dups (concat (buckets t)))"

section \<open>Sequences of operations\<close>

text \<open>
  A sequence of \<open>insert_word\<close> and \<open>remove_word\<close> calls on one table, each call tagged
  with the mode that selects it.
\<close>

fun run :: "(ProcessMode \<times> string) list \<Rightarrow> HashTable \<Rightarrow> env \<Rightarrow> (HashTable \<times> env) option" where
  "run [] table e = Some (table, e)"
| "run ((mode, word) # ops) table e =
     (case dispatch mode table word e of
        None \<Rightarrow> None
      | Some (table, e) \<Rightarrow> run ops table e)"

text \<open>An environment with no files, in which every allocation succeeds.\<close>

definition env0 :: env where
  "env0 = \<lparr>files = [], allocs = [], junk = [], stderr = [], stdout = []\<rparr>"

text \<open>
  The maximal runs of alphabetic characters of a text, in order of occurrence: a run
  starts at an alphabetic character that begins the text or follows a delimiter, and
  extends to the next delimiter or to the end of the text.
\<close>

function alpha_runs :: "string \<Rightarrow> string list" where
  "alpha_runs [] = []"
| "alpha_runs (c # cs) =
     (if isalpha c then (c # takeWhile isalpha cs) # alpha_runs (dropWhile isalpha cs)
      else alpha_runs cs)"
  by pat_completeness auto

termination
  by (relation "measure length") (auto simp: length_dropWhile_le less_Suc_eq_le)

text \<open>
  The configured maximum length of a word: what the buffer holds besides the terminator.
\<close>

definition max_len :: nat where
  "max_len = MAX_WORD_LENGTH - 1"

text \<open>
  The tokens of a text as the specification words them: each run case-folded to lowercase
  and truncated to \<open>maxLen\<close>, kept when its length is then at least \<open>minLen\<close>.
\<close>

definition tokenize :: "nat \<Rightarrow> nat \<Rightarrow> string \<Rightarrow> string list" where
  "tokenize minLen maxLen text =
     filter (\<lambda>w. minLen \<le> length w) (map (\<lambda>r. take maxLen (map tolower r)) (alpha_runs text))"

text \<open>
  The state of the reading loop after the letters \<open>pend\<close> of an unfinished run: the
  buffer holds their lowercase, cut at \<open>MAX_WORD_LENGTH - 1\<close> bytes.
\<close>

definition buf_ok :: "string \<Rightarrow> nat \<Rightarrow> string \<Rightarrow> bool" where
  "buf_ok word_buffer char_index pend =
     (length word_buffer = MAX_WORD_LENGTH \<and>
      char_index = min max_len (length pend) \<and>
      take char_index word_buffer = take max_len (map tolower pend) \<and>
      (\<forall>c\<in>set pend. isalpha c))"

text \<open>
  The word set of the specification with its insertion order: the list of the stored
  words, oldest first. An insert of a word that is absent up to case appends its copy,
  unless one of its two allocations fails, which is reported and changes nothing; a
  remove deletes the entries equal to the word up to case.
\<close>

fun log_run :: "(ProcessMode \<times> string) list \<Rightarrow> string list \<Rightarrow> env \<Rightarrow> string list \<times> env" where
  "log_run [] log e = (log, e)"
| "log_run ((MODE_ADD, w) # ops) log e =
     (if list_ex (\<lambda>u. strcasecmp u w = 0) log then log_run ops log e
      else (case alloc e of
              (False, e1) \<Rightarrow> log_run ops log (perror ''Failed to allocate memory for new node'' e1)
            | (True, e1) \<Rightarrow>
                (case alloc e1 of
                   (False, e2) \<Rightarrow> log_run ops log (perror ''Failed to duplicate word string'' e2)
                 | (True, e2) \<Rightarrow> log_run ops (log @ [strdup w]) e2)))"
| "log_run ((MODE_REMOVE, w) # ops) log e =
     log_run ops (filter (\<lambda>u. strcasecmp u w \<noteq> 0) log) e"

text \<open>
  Two enumeration orders of a log over the buckets \<open>0..N-1\<close> of a table: within each
  bucket in insertion order, and within each bucket in reverse insertion order.
\<close>

definition by_insertion :: "HashTable \<Rightarrow> string list \<Rightarrow> string list" where
  "by_insertion t log =
     concat (map (\<lambda>i. filter (\<lambda>u. index_of t u = i) log) [0..<unat (size_tab t)])"

definition by_reverse_insertion :: "HashTable \<Rightarrow> string list \<Rightarrow> string list" where
  "by_reverse_insertion t log =
     concat (map (\<lambda>i. rev (filter (\<lambda>u. index_of t u = i) log)) [0..<unat (size_tab t)])"

text \<open>The table holds the words of a log, each bucket its words, latest first.\<close>

definition refines :: "HashTable \<Rightarrow> string list \<Rightarrow> bool" where
  "refines t log =
     (wf_table t \<and>
      (\<forall>i<length (buckets t). buckets t ! i = rev (filter (\<lambda>u. index_of t u = i) log)) \<and>
      distinct (map (\<lambda>w. map tolower (cstr w)) log))"

text \<open>
  A source with two words of 65 and 64 letters that agree on their first 63 up to case,
  an exclusion file with a third such word, and a file with the first word alone.
\<close>

definition env2 :: env where
  "env2 = env0\<lparr>files :=
     [(''src'', ''x1 '' @ (replicate 63 (CHR ''a'') @ ''bc'') @ '' and '' @
                (replicate 63 (CHR ''A'') @ ''Z'') @ ''.''),
      (''excl'', ''- '' @ (replicate 62 (CHR ''a'') @ ''Axyz'') @ [CHR 0x0A]),
      (''one'', ''x1 '' @ (replicate 63 (CHR ''a'') @ ''bc'') @ ''.'')]\<rparr>"

text \<open>The source and exclusion texts of the set-difference example, every allocation succeeding.\<close>

definition env1 :: env where
  "env1 = \<lparr>files = [(''src'', ''alpha beta gamma alpha''), (''excl'', ''BETA'')],
            allocs = [], junk = ''????'', stderr = [], stdout = []\<rparr>"

section \<open>Properties of the character functions\<close>

lemma of_char_NUL [simp]: "(of_char NUL :: nat) = 0"
  by (simp add: NUL_def)

lemma NUL_iff: "c = NUL \<longleftrightarrow> (of_char c :: nat) = 0"
  by (metis of_char_NUL of_char_eq_iff)

lemma of_char_tolower:
  "(of_char (tolower c) :: nat) = (if isupper c then of_char c + 32 else of_char c)"
  by (simp add: tolower_def isupper_def)

lemma tolower_NUL_iff [simp]: "tolower c = NUL \<longleftrightarrow> c = NUL"
  by (simp add: NUL_iff of_char_tolower isupper_def)

lemma tolower_NUL [simp]: "tolower NUL = NUL"
  by simp

lemma tolower_idem [simp]: "tolower (tolower c) = tolower c"
  by (rule of_char_eqI [where ?'a = nat]) (simp add: of_char_tolower isupper_def)

lemma strcasecmp_0_iff:
  "strcasecmp a b = 0 \<longleftrightarrow> map tolower (cstr a) = map tolower (cstr b)"
proof (induction a b rule: strcasecmp.induct)
  case 1
  show ?case by (simp add: cstr_def)
next
  case (2 y ys)
  show ?case by (simp add: cstr_def NUL_iff of_char_tolower isupper_def)
next
  case (3 x xs)
  show ?case by (simp add: cstr_def NUL_iff of_char_tolower isupper_def)
next
  case (4 x xs y ys)
  show ?case
  proof (cases "tolower x = tolower y")
    case False
    then have "int (of_char (tolower x)) \<noteq> int (of_char (tolower y))"
      by simp
    with False show ?thesis
      by (auto simp: cstr_def)
  next
    case True
    then have xy: "x = NUL \<longleftrightarrow> y = NUL"
      by (metis tolower_NUL_iff)
    show ?thesis
    proof (cases "x = NUL")
      case True
      with xy show ?thesis by (simp add: cstr_def)
    next
      case False
      with xy \<open>tolower x = tolower y\<close> "4.IH" show ?thesis
        by (simp add: cstr_def)
    qed
  qed
qed

lemma hash_loop_cstr: "hash_loop h s = hash_loop h (cstr s)"
  by (induction h s rule: hash_loop.induct) (simp_all add: cstr_def)

lemma hash_loop_map_tolower:
  "NUL \<notin> set s \<Longrightarrow> hash_loop h (map tolower s) = hash_loop h s"
  by (induction h s rule: hash_loop.induct) simp_all

lemma NUL_notin_cstr [simp]: "NUL \<notin> set (cstr s)"
  by (auto simp: cstr_def dest: set_takeWhileD)

lemma hash_string_fold: "hash_string s = hash_loop 5381 (map tolower (cstr s))"
  by (metis hash_string_def hash_loop_cstr hash_loop_map_tolower NUL_notin_cstr)

section \<open>Properties of the table operations\<close>

lemma bucket_index_wf: "wf_table t \<Longrightarrow> bucket_index t w = Some (index_of t w)"
proof -
  assume wf: "wf_table t"
  then have pos: "0 < unat (size_tab t)"
    by (simp add: wf_table_def unat_gt_0)
  then have "unat (hash_string w) mod unat (size_tab t) < length (buckets t)"
    using wf by (simp add: wf_table_def)
  then have "unat (hash_string w mod size_tab t) < length (buckets t)"
    by (simp add: unat_mod)
  with wf show ?thesis
    by (simp add: wf_table_def bucket_index_def index_of_def Let_def)
qed

lemma index_of_less: "wf_table t \<Longrightarrow> index_of t w < length (buckets t)"
  by (simp add: wf_table_def index_of_def unat_mod unat_gt_0)

lemma chain_has_iff: "chain_has ws w \<longleftrightarrow> (\<exists>u\<in>set ws. strcasecmp u w = 0)"
  by (induction ws) auto

lemma cstr_idem [simp]: "cstr (cstr s) = cstr s"
  by (simp add: cstr_def takeWhile_idem)

lemma strcasecmp_sym: "strcasecmp a b = 0 \<longleftrightarrow> strcasecmp b a = 0"
  by (auto simp: strcasecmp_0_iff)

lemma strcasecmp_refl [simp]: "strcasecmp a a = 0"
  by (simp add: strcasecmp_0_iff)

lemma strcasecmp_strdup [simp]: "strcasecmp (strdup w) u = 0 \<longleftrightarrow> strcasecmp w u = 0"
  by (simp add: strcasecmp_0_iff strdup_def)

lemma strcasecmp_strdup2 [simp]: "strcasecmp u (strdup w) = 0 \<longleftrightarrow> strcasecmp u w = 0"
  by (simp add: strcasecmp_0_iff strdup_def)

lemma index_of_cong: "strcasecmp u w = 0 \<Longrightarrow> index_of t u = index_of t w"
  by (simp add: index_of_def strcasecmp_0_iff hash_string_fold)

lemma index_of_strdup [simp]: "index_of t (strdup w) = index_of t w"
  by (rule index_of_cong) simp

lemma no_case_dups_iff: "no_case_dups ws \<longleftrightarrow> distinct (map (\<lambda>w. map tolower (cstr w)) ws)"
  by (induction ws) (auto simp: strcasecmp_0_iff)

lemma concat_nth_split:
  "i < length bs \<Longrightarrow> concat bs = concat (take i bs) @ bs ! i @ concat (drop (Suc i) bs)"
  by (metis concat.simps(2) concat_append id_take_nth_drop)

lemma concat_update_split:
  "i < length bs \<Longrightarrow> concat (bs[i := x]) = concat (take i bs) @ x @ concat (drop (Suc i) bs)"
  by (simp add: upd_conv_take_nth_drop)


lemma insert_word_wf:
  assumes "wf_table t"
  shows "insert_word t w e =
     (if chain_has (buckets t ! index_of t w) w then Some (t, e)
      else (case alloc e of
              (False, e1) \<Rightarrow> Some (t, perror ''Failed to allocate memory for new node'' e1)
            | (True, e1) \<Rightarrow>
                (case alloc e1 of
                   (False, e2) \<Rightarrow> Some (t, perror ''Failed to duplicate word string'' e2)
                 | (True, e2) \<Rightarrow>
                     Some (t\<lparr>buckets := (buckets t)[index_of t w :=
                             strdup w # buckets t ! index_of t w]\<rparr>, e2))))"
  by (simp add: insert_word_def bucket_index_wf [OF assms])

lemma remove_word_wf:
  "wf_table t \<Longrightarrow> remove_word t w =
     Some (t\<lparr>buckets := (buckets t)[index_of t w := unlink (buckets t ! index_of t w) w]\<rparr>)"
  by (simp add: remove_word_def bucket_index_wf)

lemma set_unlink: "set (unlink xs w) \<subseteq> set xs"
  by (induction xs) auto

lemma distinct_unlink: "distinct xs \<Longrightarrow> distinct (unlink xs w)"
  using set_unlink by (induction xs) auto

lemma distinct_map_unlink: "distinct (map f xs) \<Longrightarrow> distinct (map f (unlink xs w))"
  using set_unlink by (induction xs) auto

lemma unlink_no_match: "\<forall>u\<in>set xs. strcasecmp u w \<noteq> 0 \<Longrightarrow> unlink xs w = xs"
  by (induction xs) auto

lemma unlink_cases:
  "unlink xs w = xs \<and> (\<forall>u\<in>set xs. strcasecmp u w \<noteq> 0) \<or>
   (\<exists>ys u zs. xs = ys @ u # zs \<and> unlink xs w = ys @ zs \<and> strcasecmp u w = 0 \<and>
      (\<forall>v\<in>set ys. strcasecmp v w \<noteq> 0))"
proof (induction xs)
  case Nil
  show ?case by simp
next
  case (Cons x xs)
  show ?case
  proof (cases "strcasecmp x w = 0")
    case True
    then have "x # xs = [] @ x # xs \<and> unlink (x # xs) w = [] @ xs \<and> strcasecmp x w = 0 \<and>
      (\<forall>v\<in>set []. strcasecmp v w \<noteq> 0)" by simp
    then show ?thesis by blast
  next
    case False
    from Cons.IH show ?thesis
    proof
      assume "unlink xs w = xs \<and> (\<forall>u\<in>set xs. strcasecmp u w \<noteq> 0)"
      with False show ?thesis by simp
    next
      assume "\<exists>ys u zs. xs = ys @ u # zs \<and> unlink xs w = ys @ zs \<and> strcasecmp u w = 0 \<and>
        (\<forall>v\<in>set ys. strcasecmp v w \<noteq> 0)"
      then obtain ys u zs where h: "xs = ys @ u # zs" "unlink xs w = ys @ zs"
        "strcasecmp u w = 0" "\<forall>v\<in>set ys. strcasecmp v w \<noteq> 0" by blast
      with False have "x # xs = (x # ys) @ u # zs \<and> unlink (x # xs) w = (x # ys) @ zs \<and>
        strcasecmp u w = 0 \<and> (\<forall>v\<in>set (x # ys). strcasecmp v w \<noteq> 0)" by simp
      then show ?thesis by blast
    qed
  qed
qed

lemma unlink_removes:
  "distinct (map (\<lambda>w. map tolower (cstr w)) xs) \<Longrightarrow> \<forall>u\<in>set (unlink xs w). strcasecmp u w \<noteq> 0"
proof (induction xs)
  case Nil
  show ?case by simp
next
  case (Cons x xs)
  show ?case
  proof (cases "strcasecmp x w = 0")
    case True
    have nx: "map tolower (cstr x) \<notin> (\<lambda>w. map tolower (cstr w)) ` set xs"
      using Cons.prems by simp
    have "strcasecmp u w \<noteq> 0" if "u \<in> set xs" for u
    proof
      assume "strcasecmp u w = 0"
      with True have "map tolower (cstr x) = map tolower (cstr u)"
        by (simp add: strcasecmp_0_iff)
      with that nx show False
        by blast
    qed
    with True show ?thesis by simp
  next
    case False
    with Cons show ?thesis by simp
  qed
qed


lemma distinct_map_replace:
  assumes "distinct (map f (A @ X @ B))" and "set Y \<subseteq> set X" and "distinct (map f X) \<Longrightarrow> distinct (map f Y)"
  shows "distinct (map f (A @ Y @ B))"
proof -
  from assms(2) have sub: "f ` set Y \<subseteq> f ` set X"
    by (rule image_mono)
  from assms(1) have "distinct (map f A)" "distinct (map f X)" "distinct (map f B)"
    "f ` set A \<inter> f ` set X = {}" "f ` set A \<inter> f ` set B = {}" "f ` set X \<inter> f ` set B = {}"
    by auto
  with sub assms(3) show ?thesis
    by (simp only: map_append distinct_append set_append set_map) blast
qed

lemma wf_table_update [simp]: "wf_table (t\<lparr>buckets := (buckets t)[i := x]\<rparr>) = wf_table t"
  by (simp add: wf_table_def)

lemma index_of_update [simp]: "index_of (t\<lparr>buckets := bs\<rparr>) w = index_of t w"
  by (simp add: index_of_def)

lemma table_inv_member:
  assumes "table_inv t" and "u \<in> set (concat (buckets t))"
  shows "u \<in> set (buckets t ! index_of t u)"
proof -
  from assms(2) obtain b where b: "b \<in> set (buckets t)" "u \<in> set b"
    by auto
  then obtain j where j: "j < length (buckets t)" "buckets t ! j = b"
    by (auto simp: in_set_conv_nth)
  with assms(1) b have "index_of t u = j"
    by (auto simp: table_inv_def)
  with j b show ?thesis by simp
qed

lemma table_inv_insert:
  assumes inv: "table_inv t"
    and absent: "\<not> chain_has (buckets t ! index_of t w) w"
  shows "table_inv (t\<lparr>buckets := (buckets t)[index_of t w := strdup w # buckets t ! index_of t w]\<rparr>)"
proof -
  let ?i = "index_of t w"
  let ?bs = "buckets t"
  let ?f = "\<lambda>w. map tolower (cstr w)"
  let ?new = "strdup w # ?bs ! ?i"
  let ?t' = "t\<lparr>buckets := ?bs[?i := ?new]\<rparr>"
  from inv have wf: "wf_table t"
    by (simp add: table_inv_def)
  then have i: "?i < length ?bs"
    by (rule index_of_less)
  have fresh: "strcasecmp u w \<noteq> 0" if "u \<in> set (concat ?bs)" for u
  proof
    assume eq: "strcasecmp u w = 0"
    then have "index_of t u = ?i"
      by (rule index_of_cong)
    with table_inv_member [OF inv that] have "u \<in> set (?bs ! ?i)"
      by simp
    with eq absent show False
      by (auto simp: chain_has_iff)
  qed
  have res: "index_of t u = j"
    if "j < length ?bs" "u \<in> set ((?bs[?i := strdup w # ?bs ! ?i]) ! j)" for j u
  proof (cases "j = ?i")
    case True
    with that inv show ?thesis
      by (auto simp: table_inv_def)
  next
    case False
    with that inv show ?thesis
      by (simp add: table_inv_def)
  qed
  have old: "distinct (?bs ! j)" if "j < length ?bs" for j
    using inv that by (simp add: table_inv_def)
  have "strdup w \<notin> set (?bs ! ?i)"
    using absent by (auto simp: chain_has_iff)
  with old [OF i] have "distinct (strdup w # ?bs ! ?i)"
    by simp
  then have dis: "distinct ((?bs[?i := strdup w # ?bs ! ?i]) ! j)" if "j < length ?bs" for j
    using that old [OF that] by (cases "j = ?i") simp_all
  have new: "?f (strdup w) \<notin> ?f ` set (concat ?bs)"
  proof
    assume "?f (strdup w) \<in> ?f ` set (concat ?bs)"
    then obtain u where "u \<in> set (concat ?bs)" "?f u = ?f (strdup w)"
      by force
    then show False
      using fresh [of u] by (simp add: strcasecmp_0_iff strdup_def)
  qed
  from inv have "distinct (map ?f (concat ?bs))"
    by (simp add: table_inv_def no_case_dups_iff)
  then have "distinct (map ?f (concat (take ?i ?bs) @ ?bs ! ?i @ concat (drop (Suc ?i) ?bs)))"
    using concat_nth_split [OF i] by simp
  moreover have "?f (strdup w) \<notin> ?f ` set (concat (take ?i ?bs) @ ?bs ! ?i @ concat (drop (Suc ?i) ?bs))"
    using new concat_nth_split [OF i] by simp
  ultimately have "distinct (map ?f (concat (take ?i ?bs) @ (strdup w # ?bs ! ?i) @ concat (drop (Suc ?i) ?bs)))"
    by auto
  then have "no_case_dups (concat (?bs[?i := ?new]))"
    by (simp only: no_case_dups_iff concat_update_split [OF i])
  then have "no_case_dups (concat (buckets ?t'))"
    by simp
  moreover have "wf_table ?t'"
    using wf by simp
  moreover have "\<forall>j<length (buckets ?t'). \<forall>u\<in>set (buckets ?t' ! j). index_of ?t' u = j"
  proof (intro allI impI ballI)
    fix j u
    assume "j < length (buckets ?t')" "u \<in> set (buckets ?t' ! j)"
    then have "j < length ?bs" "u \<in> set (?bs[?i := ?new] ! j)"
      by simp_all
    then have "index_of t u = j"
      by (rule res)
    then show "index_of ?t' u = j"
      by simp
  qed
  moreover have "\<forall>j<length (buckets ?t'). distinct (buckets ?t' ! j)"
  proof (intro allI impI)
    fix j
    assume "j < length (buckets ?t')"
    then have "j < length ?bs"
      by simp
    then have "distinct (?bs[?i := ?new] ! j)"
      by (rule dis)
    then show "distinct (buckets ?t' ! j)"
      by simp
  qed
  ultimately show ?thesis
    unfolding table_inv_def by blast
qed

lemma table_inv_remove:
  assumes inv: "table_inv t"
  shows "table_inv (t\<lparr>buckets := (buckets t)[index_of t w := unlink (buckets t ! index_of t w) w]\<rparr>)"
proof -
  let ?i = "index_of t w"
  let ?bs = "buckets t"
  let ?f = "\<lambda>w. map tolower (cstr w)"
  let ?new = "unlink (?bs ! ?i) w"
  let ?t' = "t\<lparr>buckets := ?bs[?i := ?new]\<rparr>"
  from inv have wf: "wf_table t"
    by (simp add: table_inv_def)
  then have i: "?i < length ?bs"
    by (rule index_of_less)
  have res: "index_of t u = j"
    if "j < length ?bs" "u \<in> set ((?bs[?i := unlink (?bs ! ?i) w]) ! j)" for j u
  proof (cases "j = ?i")
    case True
    with that inv set_unlink [of "?bs ! ?i" w] show ?thesis
      by (auto simp: table_inv_def)
  next
    case False
    with that inv show ?thesis
      by (simp add: table_inv_def)
  qed
  have old: "distinct (?bs ! j)" if "j < length ?bs" for j
    using inv that by (simp add: table_inv_def)
  have dis: "distinct ((?bs[?i := unlink (?bs ! ?i) w]) ! j)" if "j < length ?bs" for j
    using that old [OF that] by (cases "j = ?i") (simp_all add: distinct_unlink)
  from inv have "distinct (map ?f (concat ?bs))"
    by (simp add: table_inv_def no_case_dups_iff)
  then have "distinct (map ?f (concat (take ?i ?bs) @ ?bs ! ?i @ concat (drop (Suc ?i) ?bs)))"
    using concat_nth_split [OF i] by simp
  then have "distinct (map ?f (concat (take ?i ?bs) @ unlink (?bs ! ?i) w @ concat (drop (Suc ?i) ?bs)))"
    by (rule distinct_map_replace) (simp_all add: set_unlink distinct_map_unlink)
  then have "no_case_dups (concat (?bs[?i := ?new]))"
    by (simp only: no_case_dups_iff concat_update_split [OF i])
  then have "no_case_dups (concat (buckets ?t'))"
    by simp
  moreover have "wf_table ?t'"
    using wf by simp
  moreover have "\<forall>j<length (buckets ?t'). \<forall>u\<in>set (buckets ?t' ! j). index_of ?t' u = j"
  proof (intro allI impI ballI)
    fix j u
    assume "j < length (buckets ?t')" "u \<in> set (buckets ?t' ! j)"
    then have "j < length ?bs" "u \<in> set (?bs[?i := ?new] ! j)"
      by simp_all
    then have "index_of t u = j"
      by (rule res)
    then show "index_of ?t' u = j"
      by simp
  qed
  moreover have "\<forall>j<length (buckets ?t'). distinct (buckets ?t' ! j)"
  proof (intro allI impI)
    fix j
    assume "j < length (buckets ?t')"
    then have "j < length ?bs"
      by simp
    then have "distinct (?bs[?i := ?new] ! j)"
      by (rule dis)
    then show "distinct (buckets ?t' ! j)"
      by simp
  qed
  ultimately show ?thesis
    unfolding table_inv_def by blast
qed

lemma create_hash_table_inv:
  assumes "create_hash_table n e = (Some t, e')" and "n \<noteq> 0"
  shows "table_inv t"
proof -
  from assms(1) have t: "t = \<lparr>buckets = replicate (unat n) [], size_tab = n\<rparr>"
    by (auto simp: create_hash_table_def split: prod.splits bool.splits)
  show ?thesis
    using assms(2) by (simp add: t table_inv_def wf_table_def)
qed

lemma insert_word_inv:
  assumes "table_inv t"
  shows "\<exists>t' e'. insert_word t w e = Some (t', e') \<and> table_inv t'"
proof -
  from assms have wf: "wf_table t"
    by (simp add: table_inv_def)
  show ?thesis
    using assms table_inv_insert [OF assms, of w]
    by (auto simp: insert_word_wf [OF wf] split: prod.splits bool.splits)
qed

lemma remove_word_inv:
  assumes "table_inv t"
  shows "\<exists>t'. remove_word t w = Some t' \<and> table_inv t'"
proof -
  from assms have wf: "wf_table t"
    by (simp add: table_inv_def)
  show ?thesis
    using table_inv_remove [OF assms, of w] by (simp add: remove_word_wf [OF wf])
qed

lemma dispatch_inv:
  assumes "table_inv t"
  shows "\<exists>t' e'. dispatch mode t w e = Some (t', e') \<and> table_inv t'"
proof (cases mode)
  case MODE_ADD
  with insert_word_inv [OF assms, of w e] show ?thesis by simp
next
  case MODE_REMOVE
  with remove_word_inv [OF assms, of w] show ?thesis by auto
qed

lemma run_inv: "table_inv t \<Longrightarrow> \<exists>t' e'. run ops t e = Some (t', e') \<and> table_inv t'"
proof (induction ops arbitrary: t e)
  case Nil
  then show ?case by simp
next
  case (Cons op ops)
  obtain mode w where op: "op = (mode, w)"
    by (cases op)
  from dispatch_inv [OF Cons.prems, of mode w e]
  obtain t1 e1 where d: "dispatch mode t w e = Some (t1, e1)" "table_inv t1"
    by blast
  from Cons.IH [OF d(2), of e1] d(1) op show ?case
    by simp
qed

lemma strcasecmp_trans_left: "strcasecmp v w = 0 \<Longrightarrow> strcasecmp u v = 0 \<longleftrightarrow> strcasecmp u w = 0"
  by (simp add: strcasecmp_0_iff)

lemma chain_has_cong: "strcasecmp v w = 0 \<Longrightarrow> chain_has ws v = chain_has ws w"
  by (simp add: chain_has_iff strcasecmp_trans_left)

lemma hash_string_cong: "strcasecmp v w = 0 \<Longrightarrow> hash_string v = hash_string w"
  by (simp add: strcasecmp_0_iff hash_string_fold)

lemma bucket_index_cong: "strcasecmp v w = 0 \<Longrightarrow> bucket_index t v = bucket_index t w"
  by (simp add: bucket_index_def hash_string_cong)

lemma bucket_index_update [simp]:
  "bucket_index (t\<lparr>buckets := (buckets t)[i := x]\<rparr>) w = bucket_index t w"
  by (simp add: bucket_index_def)

lemma bucket_index_less: "bucket_index t w = Some i \<Longrightarrow> i < length (buckets t)"
  by (auto simp: bucket_index_def Let_def split: if_splits)

lemma stderr_alloc: "alloc e = (ok, e1) \<Longrightarrow> stderr e1 = stderr e"
  by (auto simp: alloc_def split: list.splits)

lemma insert_word_quiet:
  assumes "insert_word t w e = Some (t1, e1)" and "stderr e1 = stderr e"
  shows "\<exists>i. bucket_index t1 w = Some i \<and> chain_has (buckets t1 ! i) w"
proof -
  from assms(1) obtain i where i: "bucket_index t w = Some i"
    by (auto simp: insert_word_def split: option.splits)
  then have len: "i < length (buckets t)"
    by (rule bucket_index_less)
  show ?thesis
  proof (cases "chain_has (buckets t ! i) w")
    case True
    with assms(1) i show ?thesis
      by (simp add: insert_word_def)
  next
    case False
    obtain ok1 ea where a1: "alloc e = (ok1, ea)"
      by (cases "alloc e")
    obtain ok2 eb where a2: "alloc ea = (ok2, eb)"
      by (cases "alloc ea")
    from a1 a2 have s: "stderr ea = stderr e" "stderr eb = stderr e"
      by (simp_all add: stderr_alloc)
    show ?thesis
    proof (cases "ok1 \<and> ok2")
      case True
      with assms(1) i False a1 a2
      have "t1 = t\<lparr>buckets := (buckets t)[i := strdup w # buckets t ! i]\<rparr>"
        by (simp add: insert_word_def)
      with i len show ?thesis
        by simp
    next
      case False
      with assms(1) i \<open>\<not> chain_has (buckets t ! i) w\<close> a1 a2
      have "stderr e1 \<noteq> stderr e"
        using s by (auto simp: insert_word_def perror_def split: bool.splits)
      with assms(2) show ?thesis
        by simp
    qed
  qed
qed

lemma enumerate_table_wf: "wf_table t \<Longrightarrow> enumerate_table t = Some (concat (buckets t))"
  by (simp add: enumerate_table_def wf_table_def)

lemma distinct_map_bucket:
  assumes "distinct (map f (concat bs))" and "i < length bs"
  shows "distinct (map f (bs ! i))"
proof -
  from assms have "distinct (map f (concat (take i bs) @ bs ! i @ concat (drop (Suc i) bs)))"
    using concat_nth_split [of i bs] by simp
  then show ?thesis
    by simp
qed

lemma remove_word_absent:
  assumes inv: "table_inv t"
  shows "\<exists>t2. remove_word t v = Some t2 \<and> table_inv t2 \<and>
           (\<forall>u\<in>set (concat (buckets t2)). strcasecmp u v \<noteq> 0)"
proof -
  let ?i = "index_of t v"
  let ?t2 = "t\<lparr>buckets := (buckets t)[?i := unlink (buckets t ! ?i) v]\<rparr>"
  from inv have wf: "wf_table t"
    by (simp add: table_inv_def)
  then have i: "?i < length (buckets t)"
    by (rule index_of_less)
  have rm: "remove_word t v = Some ?t2"
    using wf by (rule remove_word_wf)
  have inv2: "table_inv ?t2"
    using inv by (rule table_inv_remove)
  from inv have "distinct (map (\<lambda>w. map tolower (cstr w)) (concat (buckets t)))"
    by (simp add: table_inv_def no_case_dups_iff)
  then have "distinct (map (\<lambda>w. map tolower (cstr w)) (buckets t ! ?i))"
    using i by (rule distinct_map_bucket)
  then have gone: "\<forall>u\<in>set (unlink (buckets t ! ?i) v). strcasecmp u v \<noteq> 0"
    by (rule unlink_removes)
  have "strcasecmp u v \<noteq> 0" if u: "u \<in> set (concat (buckets ?t2))" for u
  proof
    assume eq: "strcasecmp u v = 0"
    then have "index_of ?t2 u = ?i"
      using index_of_cong [OF eq, of t] by simp
    with table_inv_member [OF inv2 u] have "u \<in> set (buckets ?t2 ! ?i)"
      by simp
    with i have "u \<in> set (unlink (buckets t ! ?i) v)"
      by simp
    with gone eq show False
      by blast
  qed
  with rm inv2 show ?thesis
    by blast
qed

lemma remove_word_at_most_one:
  assumes wf: "wf_table t"
  shows "\<exists>t'. remove_word t x = Some t' \<and> wf_table t' \<and>
           (concat (buckets t') = concat (buckets t) \<or>
            (\<exists>ys u zs. concat (buckets t) = ys @ u # zs \<and> concat (buckets t') = ys @ zs \<and>
               strcasecmp u x = 0))"
proof -
  let ?i = "index_of t x"
  let ?bs = "buckets t"
  let ?t' = "t\<lparr>buckets := ?bs[?i := unlink (?bs ! ?i) x]\<rparr>"
  from wf have i: "?i < length ?bs"
    by (rule index_of_less)
  have rm: "remove_word t x = Some ?t'"
    using wf by (rule remove_word_wf)
  have wf': "wf_table ?t'"
    using wf by simp
  have old: "concat ?bs = concat (take ?i ?bs) @ ?bs ! ?i @ concat (drop (Suc ?i) ?bs)"
    using i by (rule concat_nth_split)
  have new: "concat (buckets ?t') =
      concat (take ?i ?bs) @ unlink (?bs ! ?i) x @ concat (drop (Suc ?i) ?bs)"
    using i by (simp add: concat_update_split)
  from unlink_cases [of "?bs ! ?i" x]
  have "concat (buckets ?t') = concat ?bs \<or>
        (\<exists>ys u zs. concat ?bs = ys @ u # zs \<and> concat (buckets ?t') = ys @ zs \<and>
           strcasecmp u x = 0)"
  proof
    assume "unlink (?bs ! ?i) x = ?bs ! ?i \<and> (\<forall>u\<in>set (?bs ! ?i). strcasecmp u x \<noteq> 0)"
    with old new show ?thesis
      by simp
  next
    assume "\<exists>ys u zs. ?bs ! ?i = ys @ u # zs \<and> unlink (?bs ! ?i) x = ys @ zs \<and>
      strcasecmp u x = 0 \<and> (\<forall>v\<in>set ys. strcasecmp v x \<noteq> 0)"
    then obtain ys u zs where h: "?bs ! ?i = ys @ u # zs" "unlink (?bs ! ?i) x = ys @ zs"
      "strcasecmp u x = 0"
      by blast
    have "concat ?bs = (concat (take ?i ?bs) @ ys) @ u # (zs @ concat (drop (Suc ?i) ?bs))"
      using old h(1) by simp
    moreover have "concat (buckets ?t') =
        (concat (take ?i ?bs) @ ys) @ (zs @ concat (drop (Suc ?i) ?bs))"
      using new h(2) by simp
    ultimately show ?thesis
      using h(3) by blast
  qed
  with rm wf' show ?thesis
    by blast
qed

lemma remove_word_no_match:
  assumes wf: "wf_table t" and none: "\<forall>u\<in>set (concat (buckets t)). strcasecmp u x \<noteq> 0"
  shows "remove_word t x = Some t"
proof -
  from wf have i: "index_of t x < length (buckets t)"
    by (rule index_of_less)
  then have "buckets t ! index_of t x \<in> set (buckets t)"
    by (rule nth_mem)
  then have "set (buckets t ! index_of t x) \<subseteq> set (concat (buckets t))"
    by auto
  with none have "\<forall>u\<in>set (buckets t ! index_of t x). strcasecmp u x \<noteq> 0"
    by blast
  then have "unlink (buckets t ! index_of t x) x = buckets t ! index_of t x"
    by (rule unlink_no_match)
  then show ?thesis
    by (simp add: remove_word_wf [OF wf])
qed

lemma insert_word_abandoned:
  assumes wf: "wf_table t" and absent: "\<not> chain_has (buckets t ! index_of t w) w"
    and fail: "allocs e = False # rest \<and> msg = ''Failed to allocate memory for new node'' \<or>
               allocs e = True # False # rest \<and> msg = ''Failed to duplicate word string''"
  shows "insert_word t w e = Some (t, e\<lparr>allocs := rest, stderr := stderr e @ [msg]\<rparr>)"
  using fail
proof
  assume "allocs e = False # rest \<and> msg = ''Failed to allocate memory for new node''"
  with absent show ?thesis
    by (simp add: insert_word_wf [OF wf] alloc_def perror_def)
next
  assume "allocs e = True # False # rest \<and> msg = ''Failed to duplicate word string''"
  with absent show ?thesis
    by (simp add: insert_word_wf [OF wf] alloc_def perror_def)
qed

lemma takeWhile_delim: "\<not> P d \<Longrightarrow> takeWhile P (cs @ d # ys) = takeWhile P cs"
  by (induction cs) auto

lemma dropWhile_delim: "\<not> P d \<Longrightarrow> dropWhile P (cs @ d # ys) = dropWhile P cs @ d # ys"
  by (induction cs) auto

lemma alpha_runs_delim:
  "\<not> isalpha d \<Longrightarrow> alpha_runs (xs @ d # ys) = alpha_runs xs @ alpha_runs ys"
  by (induction xs rule: alpha_runs.induct) (simp_all add: takeWhile_delim dropWhile_delim)

lemma alpha_runs_run:
  "\<forall>c\<in>set r. isalpha c \<Longrightarrow> alpha_runs r = (if r = [] then [] else [r])"
proof (cases r)
  case Nil
  then show ?thesis by simp
next
  case (Cons a list)
  assume "\<forall>c\<in>set r. isalpha c"
  with Cons have a: "isalpha a" and tw: "takeWhile isalpha list = list"
    and dw: "dropWhile isalpha list = []"
    by simp_all
  have "alpha_runs (dropWhile isalpha list) = []"
    by (simp only: dw alpha_runs.simps)
  with a tw show ?thesis
    by (simp add: Cons)
qed

lemma alpha_runs_snoc:
  "\<forall>c\<in>set r. isalpha c \<Longrightarrow> \<not> isalpha d \<Longrightarrow>
     alpha_runs (r @ d # ys) = (if r = [] then [] else [r]) @ alpha_runs ys"
  by (simp add: alpha_runs_delim alpha_runs_run)

lemma tokenize_delim:
  "\<forall>c\<in>set r. isalpha c \<Longrightarrow> \<not> isalpha d \<Longrightarrow>
     tokenize m n (r @ d # ys) = tokenize m n r @ tokenize m n ys"
  by (simp add: tokenize_def alpha_runs_delim)

lemma tokenize_run:
  "\<forall>c\<in>set r. isalpha c \<Longrightarrow>
     tokenize m n r = (if r \<noteq> [] \<and> m \<le> length (take n (map tolower r))
                       then [take n (map tolower r)] else [])"
  by (simp add: tokenize_def alpha_runs_run)

lemma run_append:
  "run (xs @ ys) t e = (case run xs t e of None \<Rightarrow> None | Some (t', e') \<Rightarrow> run ys t' e')"
  by (induction xs arbitrary: t e) (auto split: option.splits)

lemma unlink_cong: "strcasecmp v w = 0 \<Longrightarrow> unlink ws v = unlink ws w"
  by (induction ws) (simp_all add: strcasecmp_trans_left)

lemma strcasecmp_cstr [simp]: "strcasecmp (cstr w) w = 0"
  by (simp add: strcasecmp_0_iff)

lemma dispatch_cstr: "dispatch mode t (cstr w) e = dispatch mode t w e"
proof -
  have eq: "strcasecmp (cstr w) w = 0"
    by simp
  have "insert_word t (cstr w) e = insert_word t w e"
    by (simp add: insert_word_def bucket_index_cong [OF eq] chain_has_cong [OF eq] strdup_def
        split: option.split prod.split bool.split)
  moreover have "remove_word t (cstr w) = remove_word t w"
    by (simp add: remove_word_def bucket_index_cong [OF eq] unlink_cong [OF eq]
        cong: option.case_cong)
  ultimately show ?thesis
    by (cases mode) simp_all
qed

lemma isalpha_not_NUL: "isalpha c \<Longrightarrow> c \<noteq> NUL"
  by (auto simp: isalpha_def isupper_def islower_def NUL_iff)

lemma cstr_terminated:
  assumes "i < length buf" and "NUL \<notin> set (take i buf)"
  shows "cstr (buf[i := NUL]) = take i buf"
proof -
  have "buf[i := NUL] = take i buf @ NUL # drop (Suc i) buf"
    using assms(1) by (rule upd_conv_take_nth_drop)
  then have "cstr (buf[i := NUL]) = takeWhile (\<lambda>c. c \<noteq> NUL) (take i buf @ NUL # drop (Suc i) buf)"
    by (simp add: cstr_def)
  also have "\<dots> = take i buf"
    using assms(2) by (auto simp: takeWhile_tail takeWhile_eq_all_conv)
  finally show ?thesis .
qed

lemma buf_ok_len: "buf_ok buf i pend \<Longrightarrow> length buf = MAX_WORD_LENGTH"
  by (simp add: buf_ok_def)

lemma buf_ok_idx: "buf_ok buf i pend \<Longrightarrow> i = min max_len (length pend)"
  by (simp add: buf_ok_def)

lemma buf_ok_take:
  "buf_ok buf i pend \<Longrightarrow> take i buf = take max_len (map tolower pend)"
  unfolding buf_ok_def by blast

lemma buf_ok_alpha: "buf_ok buf i pend \<Longrightarrow> \<forall>c\<in>set pend. isalpha c"
  by (simp add: buf_ok_def)

lemma buf_ok_cstr:
  assumes "buf_ok buf i pend"
  shows "cstr (buf[i := NUL]) = take max_len (map tolower pend)"
proof -
  from buf_ok_len [OF assms] buf_ok_idx [OF assms] have len: "i < length buf"
    by (simp add: MAX_WORD_LENGTH_def max_len_def)
  from assms have tk: "take i buf = take max_len (map tolower pend)"
    by (rule buf_ok_take)
  have "tolower c \<noteq> NUL" if "c \<in> set pend" for c
    using that buf_ok_alpha [OF assms] by (simp add: isalpha_not_NUL)
  then have "NUL \<notin> set (map tolower pend)"
    by (metis imageE list.set_map)
  then have "NUL \<notin> set (take max_len (map tolower pend))"
    by (meson in_set_takeD)
  with tk have "NUL \<notin> set (take i buf)"
    by simp
  with len have "cstr (buf[i := NUL]) = take i buf"
    by (rule cstr_terminated)
  with tk show ?thesis
    by simp
qed

lemma buf_ok_empty: "length buf = MAX_WORD_LENGTH \<Longrightarrow> buf_ok buf 0 []"
  by (simp add: buf_ok_def)

lemma buf_ok_pos: "buf_ok buf i pend \<Longrightarrow> 0 < i \<longleftrightarrow> pend \<noteq> []"
  using buf_ok_idx [of buf i pend] by (auto simp: MAX_WORD_LENGTH_def max_len_def)

lemma buf_ok_store:
  assumes ok: "buf_ok buf i pend" and c: "isalpha c" and room: "i < max_len"
  shows "buf_ok (buf[i := tolower c]) (i + 1) (pend @ [c])"
proof -
  from buf_ok_idx [OF ok] room have i: "i = length pend" "length pend < max_len"
    by auto
  from ok have len: "length buf = MAX_WORD_LENGTH"
    by (rule buf_ok_len)
  from buf_ok_take [OF ok] i have tk: "take i buf = map tolower pend"
    by simp
  from i len have ilen: "i < length buf"
    by (simp add: max_len_def)
  have "take (Suc i) (buf[i := tolower c]) = take i (buf[i := tolower c]) @ [(buf[i := tolower c]) ! i]"
    using ilen by (simp add: take_Suc_conv_app_nth)
  also have "\<dots> = take i buf @ [tolower c]"
    using ilen by simp
  finally have "take (i + 1) (buf[i := tolower c]) = map tolower (pend @ [c])"
    using tk by simp
  moreover have "take max_len (map tolower (pend @ [c])) = map tolower (pend @ [c])"
    using i by simp
  moreover have "i + 1 = min max_len (length (pend @ [c]))"
    using i by simp
  moreover have "\<forall>x\<in>set (pend @ [c]). isalpha x"
    using buf_ok_alpha [OF ok] c by simp
  ultimately show ?thesis
    using len unfolding buf_ok_def by simp
qed

lemma buf_ok_full:
  assumes ok: "buf_ok buf i pend" and c: "isalpha c" and full: "\<not> i < max_len"
  shows "buf_ok buf i (pend @ [c])"
proof -
  from buf_ok_idx [OF ok] full have i: "i = max_len" "max_len \<le> length pend"
    by auto
  then have "take max_len (map tolower (pend @ [c])) =
      take max_len (map tolower pend)"
    by simp
  with buf_ok_take [OF ok] have "take i buf = take max_len (map tolower (pend @ [c]))"
    by simp
  moreover have "i = min max_len (length (pend @ [c]))"
    using i by simp
  moreover have "\<forall>x\<in>set (pend @ [c]). isalpha x"
    using buf_ok_alpha [OF ok] c by simp
  ultimately show ?thesis
    using buf_ok_len [OF ok] unfolding buf_ok_def by blast
qed

lemma option_case_id:
  "(case x of None \<Rightarrow> None | Some (a, b) \<Rightarrow> Some (a, b)) = (x :: ('a \<times> 'b) option)"
  by (cases x) auto

lemma run_single: "run [(mode, w)] t e = dispatch mode t w e"
  by (cases "dispatch mode t w e") auto

lemma buf_ok_strlen:
  assumes "buf_ok buf i pend"
  shows "strlen (buf[i := NUL]) = length (take max_len (map tolower pend))"
  by (simp only: strlen_def buf_ok_cstr [OF assms])

lemma buf_ok_dispatch:
  assumes "buf_ok buf i pend"
  shows "dispatch mode t (buf[i := NUL]) e =
         dispatch mode t (take max_len (map tolower pend)) e"
proof -
  have "dispatch mode t (buf[i := NUL]) e = dispatch mode t (cstr (buf[i := NUL])) e"
    by (simp only: dispatch_cstr)
  then show ?thesis
    by (simp only: buf_ok_cstr [OF assms])
qed

lemma last_word_run:
  assumes ok: "buf_ok buf i pend"
  shows "last_word mode buf i t e =
         run (map (Pair mode) (tokenize MIN_WORD_LENGTH max_len pend)) t e"
proof (cases "pend = []")
  case True
  with buf_ok_pos [OF ok] have "i = 0"
    by simp
  with True show ?thesis
    by (simp add: last_word_def tokenize_def)
next
  case False
  with buf_ok_pos [OF ok] have pos: "0 < i"
    by simp
  let ?tok = "take max_len (map tolower pend)"
  have tk: "tokenize MIN_WORD_LENGTH max_len pend =
      (if MIN_WORD_LENGTH \<le> length ?tok then [?tok] else [])"
    using False buf_ok_alpha [OF ok] by (simp add: tokenize_run)
  show ?thesis
  proof (cases "MIN_WORD_LENGTH \<le> length ?tok")
    case True
    with pos have "last_word mode buf i t e = dispatch mode t (buf[i := NUL]) e"
      by (simp only: last_word_def Let_def buf_ok_strlen [OF ok] if_True)
    also have "\<dots> = dispatch mode t ?tok e"
      using ok by (rule buf_ok_dispatch)
    also have "\<dots> = run (map (Pair mode) [?tok]) t e"
      by (simp only: list.map run_single)
    finally show ?thesis
      using True by (simp only: tk if_True)
  next
    case False
    with pos have "last_word mode buf i t e = Some (t, e)"
      by (simp only: last_word_def Let_def buf_ok_strlen [OF ok] if_True if_False)
    also have "\<dots> = run (map (Pair mode) []) t e"
      by simp
    finally show ?thesis
      using False by (simp only: tk if_False)
  qed
qed

lemma read_loop_run:
  "buf_ok buf i pend \<Longrightarrow>
   (case read_loop mode bytes buf i t e of
      None \<Rightarrow> None
    | Some (wb, ci, t', e') \<Rightarrow> last_word mode wb ci t' e') =
   run (map (Pair mode) (tokenize MIN_WORD_LENGTH max_len (pend @ bytes))) t e"
proof (induction bytes arbitrary: buf i pend t e)
  case Nil
  then show ?case
    by (simp add: last_word_run)
next
  case (Cons c bytes)
  note ok = \<open>buf_ok buf i pend\<close>
  let ?T = "tokenize MIN_WORD_LENGTH max_len"
  show ?case
  proof (cases "isalpha c")
    case True
    show ?thesis
    proof (cases "i < max_len")
      case room: True
      from Cons.IH [OF buf_ok_store [OF ok True room]] True room show ?thesis
        by (simp add: max_len_def)
    next
      case full: False
      from Cons.IH [OF buf_ok_full [OF ok True full]] True full show ?thesis
        by (simp add: max_len_def)
    qed
  next
    case delim: False
    have split: "?T (pend @ c # bytes) = ?T pend @ ?T bytes"
      using buf_ok_alpha [OF ok] delim by (rule tokenize_delim)
    show ?thesis
    proof (cases "0 < i")
      case False
      with buf_ok_pos [OF ok] have "pend = []"
        by simp
      moreover from Cons.IH [OF ok] \<open>pend = []\<close>
      have "(case read_loop mode bytes buf i t e of None \<Rightarrow> None
             | Some (wb, ci, t', e') \<Rightarrow> last_word mode wb ci t' e') =
            run (map (Pair mode) (?T bytes)) t e"
        by simp
      ultimately show ?thesis
        using delim False split by (simp add: tokenize_def)
    next
      case pos: True
      let ?wb = "buf[i := NUL]"
      let ?tok = "take max_len (map tolower pend)"
      have ok0: "buf_ok ?wb 0 []"
        using buf_ok_len [OF ok] by (simp add: buf_ok_empty)
      have rest: "(case read_loop mode bytes ?wb 0 t1 e1 of None \<Rightarrow> None
             | Some (wb, ci, t', e') \<Rightarrow> last_word mode wb ci t' e') =
            run (map (Pair mode) (?T bytes)) t1 e1" for t1 e1
        using Cons.IH [OF ok0, of t1 e1] by simp
      from pos buf_ok_pos [OF ok] have ne: "pend \<noteq> []"
        by simp
      have tk: "?T pend = (if MIN_WORD_LENGTH \<le> length ?tok then [?tok] else [])"
        using ne buf_ok_alpha [OF ok] by (simp add: tokenize_run)
      show ?thesis
      proof (cases "MIN_WORD_LENGTH \<le> length ?tok")
        case long: True
        have "read_loop mode (c # bytes) buf i t e =
            (case dispatch mode t ?wb e of None \<Rightarrow> None
             | Some (t1, e1) \<Rightarrow> read_loop mode bytes ?wb 0 t1 e1)"
          using delim pos long
          by (simp only: read_loop.simps Let_def buf_ok_strlen [OF ok] if_True if_False)
        then have step: "read_loop mode (c # bytes) buf i t e =
            (case dispatch mode t ?tok e of None \<Rightarrow> None
             | Some (t1, e1) \<Rightarrow> read_loop mode bytes ?wb 0 t1 e1)"
          by (simp only: buf_ok_dispatch [OF ok])
        have "?T (pend @ c # bytes) = ?tok # ?T bytes"
          using long by (simp only: split tk if_True append.simps)
        then have r: "run (map (Pair mode) (?T (pend @ c # bytes))) t e =
            (case dispatch mode t ?tok e of None \<Rightarrow> None
             | Some (t1, e1) \<Rightarrow> run (map (Pair mode) (?T bytes)) t1 e1)"
          by simp
        show ?thesis
        proof (cases "dispatch mode t ?tok e")
          case None
          then show ?thesis
            by (simp only: step r option.case)
        next
          case (Some p)
          obtain t1 e1 where p: "p = (t1, e1)"
            by (cases p)
          show ?thesis
            by (simp only: step r Some p option.case prod.case rest)
        qed
      next
        case short: False
        have step: "read_loop mode (c # bytes) buf i t e = read_loop mode bytes ?wb 0 t e"
          using delim pos short
          by (simp only: read_loop.simps Let_def buf_ok_strlen [OF ok] if_True if_False)
        have "?T (pend @ c # bytes) = ?T bytes"
          using short by (simp only: split tk if_False append.simps)
        then have r: "run (map (Pair mode) (?T (pend @ c # bytes))) t e =
            run (map (Pair mode) (?T bytes)) t e"
          by simp
        show ?thesis
          by (simp only: step r rest)
      qed
    qed
  qed
qed

lemma uninit_length: "length (uninit n e) = n"
  by (simp add: uninit_def)

lemma process_file_run:
  assumes "fopen filename e = Some bytes"
  shows "process_file filename t mode e =
         run (map (Pair mode) (tokenize MIN_WORD_LENGTH max_len bytes)) t e"
proof -
  have "buf_ok (uninit MAX_WORD_LENGTH e) 0 []"
    by (simp add: buf_ok_empty uninit_length)
  from read_loop_run [OF this, of mode bytes t e] assms show ?thesis
    by (simp add: process_file_def)
qed

lemma alpha_runs_context:
  assumes r: "\<forall>c\<in>set r. isalpha c" "r \<noteq> []"
    and pre: "pre = [] \<or> \<not> isalpha (last pre)"
    and post: "post = [] \<or> \<not> isalpha (hd post)"
  shows "alpha_runs (pre @ r @ post) = alpha_runs pre @ [r] @ alpha_runs post"
proof -
  have tail: "alpha_runs (r @ post) = [r] @ alpha_runs post"
  proof (cases post)
    case Nil
    with r show ?thesis
      by (simp add: alpha_runs_run)
  next
    case (Cons d post')
    with post have d: "\<not> isalpha d"
      by simp
    with r Cons show ?thesis
      by (simp add: alpha_runs_snoc)
  qed
  show ?thesis
  proof (cases pre rule: rev_cases)
    case Nil
    with tail show ?thesis
      by simp
  next
    case (snoc pre' d)
    with pre have d: "\<not> isalpha d"
      by simp
    have "alpha_runs (pre' @ d # (r @ post)) = alpha_runs pre' @ alpha_runs (r @ post)"
      using d by (rule alpha_runs_delim)
    moreover have "alpha_runs (pre' @ d # []) = alpha_runs pre' @ alpha_runs []"
      using d by (rule alpha_runs_delim)
    ultimately show ?thesis
      using snoc tail by simp
  qed
qed

lemma tokenize_context:
  assumes r: "\<forall>c\<in>set r. isalpha c" "n \<le> length r" "m \<le> n" "0 < n"
    and pre: "pre = [] \<or> \<not> isalpha (last pre)"
    and post: "post = [] \<or> \<not> isalpha (hd post)"
  shows "tokenize m n (pre @ r @ post) =
         tokenize m n pre @ [map tolower (take n r)] @ tokenize m n post"
proof -
  from r have ne: "r \<noteq> []"
    by auto
  from r have "m \<le> length (take n (map tolower r))"
    by simp
  then show ?thesis
    using alpha_runs_context [OF r(1) ne pre post] by (simp add: tokenize_def take_map)
qed

lemma filter_match_le1:
  "distinct (map f xs) \<Longrightarrow> length (filter (\<lambda>u. f u = y) xs) \<le> 1"
proof (induction xs)
  case Nil
  show ?case by simp
next
  case (Cons x xs)
  show ?case
  proof (cases "f x = y")
    case True
    from Cons.prems have "f x \<notin> f ` set xs"
      by simp
    with True have "\<forall>u\<in>set xs. f u \<noteq> y"
      by blast
    then have "filter (\<lambda>u. f u = y) xs = []"
      by (simp add: filter_empty_conv)
    with True show ?thesis
      by simp
  next
    case False
    with Cons show ?thesis
      by simp
  qed
qed

lemma table_inv_match_le1:
  assumes "table_inv t"
  shows "length (filter (\<lambda>u. strcasecmp u w = 0) (concat (buckets t))) \<le> 1"
proof -
  from assms have "distinct (map (\<lambda>w. map tolower (cstr w)) (concat (buckets t)))"
    by (simp add: table_inv_def no_case_dups_iff)
  then have "length (filter (\<lambda>u. map tolower (cstr u) = map tolower (cstr w))
      (concat (buckets t))) \<le> 1"
    by (rule filter_match_le1)
  then show ?thesis
    by (simp add: strcasecmp_0_iff)
qed

lemma files_alloc: "alloc e = (ok, e1) \<Longrightarrow> files e1 = files e"
  by (auto simp: alloc_def split: list.splits)

lemma insert_word_files: "insert_word t w e = Some (t', e') \<Longrightarrow> files e' = files e"
  by (auto simp: insert_word_def perror_def split: option.splits if_splits prod.splits bool.splits
      dest!: files_alloc)

lemma dispatch_files: "dispatch mode t w e = Some (t', e') \<Longrightarrow> files e' = files e"
  by (cases mode) (auto simp: insert_word_files)

lemma run_files: "run ops t e = Some (t', e') \<Longrightarrow> files e' = files e"
proof (induction ops arbitrary: t e)
  case Nil
  then show ?case by simp
next
  case (Cons op ops)
  obtain mode w where op: "op = (mode, w)"
    by (cases op)
  from Cons.prems op obtain t1 e1 where d: "dispatch mode t w e = Some (t1, e1)"
    and r: "run ops t1 e1 = Some (t', e')"
    by (auto split: option.splits)
  from Cons.IH [OF r] dispatch_files [OF d] show ?case
    by simp
qed

lemma insert_word_all_ok:
  assumes wf: "wf_table t" and ok: "allocs e = []"
  shows "\<exists>t'. insert_word t w e = Some (t', e) \<and>
           chain_has (buckets t' ! index_of t w) w \<and>
           (\<forall>v. strcasecmp v w = 0 \<longrightarrow> insert_word t' v e = Some (t', e))"
proof -
  let ?i = "index_of t w"
  from wf have i: "?i < length (buckets t)"
    by (rule index_of_less)
  from ok have a: "alloc e = (True, e)"
    by (simp add: alloc_def)
  show ?thesis
  proof (cases "chain_has (buckets t ! ?i) w")
    case True
    then have "insert_word t w e = Some (t, e)"
      by (simp add: insert_word_wf [OF wf])
    moreover have "insert_word t v e = Some (t, e)" if "strcasecmp v w = 0" for v
      using True that wf
      by (simp add: insert_word_wf [OF wf] index_of_cong [OF that] chain_has_cong [OF that])
    ultimately show ?thesis
      using True by blast
  next
    case False
    let ?t' = "t\<lparr>buckets := (buckets t)[?i := strdup w # buckets t ! ?i]\<rparr>"
    have wf': "wf_table ?t'"
      using wf by simp
    have ins: "insert_word t w e = Some (?t', e)"
      using False a by (simp add: insert_word_wf [OF wf])
    have has: "chain_has (buckets ?t' ! ?i) w"
      using i by simp
    have "insert_word ?t' v e = Some (?t', e)" if "strcasecmp v w = 0" for v
      using that i
      by (simp add: insert_word_wf [OF wf'] index_of_cong [OF that] chain_has_cong [OF that])
    with ins has show ?thesis
      by blast
  qed
qed

lemma refines_wf: "refines t log \<Longrightarrow> wf_table t"
  unfolding refines_def by blast

lemma refines_bucket:
  "refines t log \<Longrightarrow> i < length (buckets t) \<Longrightarrow>
     buckets t ! i = rev (filter (\<lambda>u. index_of t u = i) log)"
  unfolding refines_def by blast

lemma refines_distinct: "refines t log \<Longrightarrow> distinct (map (\<lambda>w. map tolower (cstr w)) log)"
  unfolding refines_def by blast

lemma refines_chain_has:
  assumes "refines t log"
  shows "chain_has (buckets t ! index_of t w) w = list_ex (\<lambda>u. strcasecmp u w = 0) log"
proof -
  have i: "index_of t w < length (buckets t)"
    using refines_wf [OF assms] by (rule index_of_less)
  have b: "buckets t ! index_of t w = rev (filter (\<lambda>u. index_of t u = index_of t w) log)"
    using assms i by (rule refines_bucket)
  show ?thesis
  proof
    assume "chain_has (buckets t ! index_of t w) w"
    then obtain u where "u \<in> set (buckets t ! index_of t w)" "strcasecmp u w = 0"
      by (auto simp: chain_has_iff)
    then have "u \<in> set log" "strcasecmp u w = 0"
      by (simp_all add: b)
    then show "list_ex (\<lambda>u. strcasecmp u w = 0) log"
      by (auto simp: list_ex_iff)
  next
    assume "list_ex (\<lambda>u. strcasecmp u w = 0) log"
    then obtain u where u: "u \<in> set log" "strcasecmp u w = 0"
      by (auto simp: list_ex_iff)
    from u(2) have "index_of t u = index_of t w"
      by (rule index_of_cong)
    with u(1) have "u \<in> set (buckets t ! index_of t w)"
      by (simp add: b)
    with u(2) show "chain_has (buckets t ! index_of t w) w"
      by (auto simp: chain_has_iff)
  qed
qed

lemma filter_swap: "filter P (filter Q xs) = filter Q (filter P xs)"
  by (induction xs) auto

lemma unlink_filter:
  "distinct (map (\<lambda>w. map tolower (cstr w)) xs) \<Longrightarrow>
     unlink xs w = filter (\<lambda>u. strcasecmp u w \<noteq> 0) xs"
proof (induction xs)
  case Nil
  show ?case by simp
next
  case (Cons x xs)
  show ?case
  proof (cases "strcasecmp x w = 0")
    case True
    have ul: "unlink (x # xs) w = xs"
      using True by simp
    from Cons.prems have "distinct (map (\<lambda>w. map tolower (cstr w)) (x # xs))" .
    then have "\<forall>u\<in>set (unlink (x # xs) w). strcasecmp u w \<noteq> 0"
      by (rule unlink_removes)
    then have "\<forall>u\<in>set xs. strcasecmp u w \<noteq> 0"
      unfolding ul .
    then have keep: "filter (\<lambda>u. strcasecmp u w \<noteq> 0) xs = xs"
      by (simp add: filter_id_conv)
    note ul
    also have "xs = filter (\<lambda>u. strcasecmp u w \<noteq> 0) xs"
      using keep by (rule sym)
    also have "\<dots> = filter (\<lambda>u. strcasecmp u w \<noteq> 0) (x # xs)"
      using True by simp
    finally show ?thesis .
  next
    case False
    from Cons.prems have "distinct (map (\<lambda>w. map tolower (cstr w)) xs)"
      by simp
    then have "unlink xs w = filter (\<lambda>u. strcasecmp u w \<noteq> 0) xs"
      by (rule Cons.IH)
    with False show ?thesis
      by simp
  qed
qed

lemma refines_insert:
  assumes r: "refines t log" and absent: "\<not> list_ex (\<lambda>u. strcasecmp u w = 0) log"
  shows "refines (t\<lparr>buckets := (buckets t)[index_of t w := strdup w # buckets t ! index_of t w]\<rparr>)
           (log @ [strdup w])"
proof -
  let ?i = "index_of t w"
  let ?bs = "buckets t"
  let ?t' = "t\<lparr>buckets := ?bs[?i := strdup w # ?bs ! ?i]\<rparr>"
  let ?f = "\<lambda>w. map tolower (cstr w)"
  have wf: "wf_table t"
    using r by (rule refines_wf)
  then have i: "?i < length ?bs"
    by (rule index_of_less)
  have "wf_table ?t'"
    using wf by simp
  moreover have "\<forall>j<length (buckets ?t').
      buckets ?t' ! j = rev (filter (\<lambda>u. index_of ?t' u = j) (log @ [strdup w]))"
  proof (intro allI impI)
    fix j
    assume "j < length (buckets ?t')"
    then have j: "j < length ?bs"
      by simp
    show "buckets ?t' ! j = rev (filter (\<lambda>u. index_of ?t' u = j) (log @ [strdup w]))"
    proof (cases "j = ?i")
      case True
      with i refines_bucket [OF r i] show ?thesis
        by simp
    next
      case False
      with j refines_bucket [OF r j] show ?thesis
        by simp
    qed
  qed
  moreover have "distinct (map ?f (log @ [strdup w]))"
  proof -
    have "?f (strdup w) \<notin> ?f ` set log"
    proof
      assume "?f (strdup w) \<in> ?f ` set log"
      then obtain u where "u \<in> set log" "?f u = ?f (strdup w)"
        by force
      then have "u \<in> set log" "strcasecmp u w = 0"
        by (simp_all add: strcasecmp_0_iff strdup_def)
      with absent show False
        by (auto simp: list_ex_iff)
    qed
    with refines_distinct [OF r] show ?thesis
      by simp
  qed
  ultimately show ?thesis
    unfolding refines_def by blast
qed

lemma refines_remove:
  assumes r: "refines t log"
  shows "refines (t\<lparr>buckets := (buckets t)[index_of t w := unlink (buckets t ! index_of t w) w]\<rparr>)
           (filter (\<lambda>u. strcasecmp u w \<noteq> 0) log)"
proof -
  let ?i = "index_of t w"
  let ?bs = "buckets t"
  let ?t' = "t\<lparr>buckets := ?bs[?i := unlink (?bs ! ?i) w]\<rparr>"
  let ?f = "\<lambda>w. map tolower (cstr w)"
  let ?keep = "\<lambda>u. strcasecmp u w \<noteq> 0"
  have wf: "wf_table t"
    using r by (rule refines_wf)
  then have i: "?i < length ?bs"
    by (rule index_of_less)
  have d: "distinct (map ?f log)"
    using r by (rule refines_distinct)
  have "wf_table ?t'"
    using wf by simp
  moreover have "\<forall>j<length (buckets ?t').
      buckets ?t' ! j = rev (filter (\<lambda>u. index_of ?t' u = j) (filter ?keep log))"
  proof (intro allI impI)
    fix j
    assume "j < length (buckets ?t')"
    then have j: "j < length ?bs"
      by simp
    show "buckets ?t' ! j = rev (filter (\<lambda>u. index_of ?t' u = j) (filter ?keep log))"
    proof (cases "j = ?i")
      case True
      have "distinct (map ?f (filter (\<lambda>u. index_of t u = ?i) log))"
        using d by (rule distinct_map_filter)
      then have "distinct (rev (map ?f (filter (\<lambda>u. index_of t u = ?i) log)))"
        by (simp only: distinct_rev)
      then have "distinct (map ?f (rev (filter (\<lambda>u. index_of t u = ?i) log)))"
        by (simp only: rev_map)
      then have "unlink (rev (filter (\<lambda>u. index_of t u = ?i) log)) w =
          filter ?keep (rev (filter (\<lambda>u. index_of t u = ?i) log))"
        by (rule unlink_filter)
      also have "\<dots> = rev (filter ?keep (filter (\<lambda>u. index_of t u = ?i) log))"
        by (simp only: rev_filter)
      also have "\<dots> = rev (filter (\<lambda>u. index_of t u = ?i) (filter ?keep log))"
        by (simp only: filter_swap [of ?keep])
      finally show ?thesis
        using True i refines_bucket [OF r i] by simp
    next
      case False
      have "filter (\<lambda>u. index_of t u = j) (filter ?keep log) = filter (\<lambda>u. index_of t u = j) log"
      proof -
        have "(strcasecmp u w \<noteq> 0 \<and> index_of t u = j) = (index_of t u = j)" for u
          using False index_of_cong [of u w t] by blast
        then show ?thesis
          by (simp only: filter_filter)
      qed
      with False j refines_bucket [OF r j] show ?thesis
        by simp
    qed
  qed
  moreover have "distinct (map ?f (filter ?keep log))"
    using d by (rule distinct_map_filter)
  ultimately show ?thesis
    unfolding refines_def by blast
qed

lemma refines_dispatch:
  assumes r: "refines t log"
  shows "\<exists>t'. dispatch mode t w e = Some (t', snd (log_run [(mode, w)] log e)) \<and>
           refines t' (fst (log_run [(mode, w)] log e))"
proof (cases mode)
  case MODE_ADD
  have wf: "wf_table t"
    using r by (rule refines_wf)
  show ?thesis
  proof (cases "list_ex (\<lambda>u. strcasecmp u w = 0) log")
    case True
    with r MODE_ADD show ?thesis
      by (simp add: insert_word_wf [OF wf] refines_chain_has [OF r])
  next
    case False
    obtain ok1 e1 where a1: "alloc e = (ok1, e1)"
      by (cases "alloc e")
    obtain ok2 e2 where a2: "alloc e1 = (ok2, e2)"
      by (cases "alloc e1")
    show ?thesis
    proof (cases "ok1 \<and> ok2")
      case True
      with False MODE_ADD a1 a2 refines_insert [OF r False] show ?thesis
        by (simp add: insert_word_wf [OF wf] refines_chain_has [OF r])
    next
      case False
      with \<open>\<not> list_ex (\<lambda>u. strcasecmp u w = 0) log\<close> MODE_ADD a1 a2 r show ?thesis
        by (cases ok1) (simp_all add: insert_word_wf [OF wf] refines_chain_has [OF r])
    qed
  qed
next
  case MODE_REMOVE
  have wf: "wf_table t"
    using r by (rule refines_wf)
  from MODE_REMOVE refines_remove [OF r, of w] show ?thesis
    by (simp add: remove_word_wf [OF wf])
qed

lemma log_run_Cons:
  "log_run ((mode, w) # ops) log e =
     log_run ops (fst (log_run [(mode, w)] log e)) (snd (log_run [(mode, w)] log e))"
  by (cases mode) (simp_all split: prod.splits bool.splits)

lemma refines_run:
  "refines t log \<Longrightarrow>
     \<exists>t'. run ops t e = Some (t', snd (log_run ops log e)) \<and> refines t' (fst (log_run ops log e))"
proof (induction ops arbitrary: t log e)
  case Nil
  then show ?case by simp
next
  case (Cons op ops)
  obtain mode w where op: "op = (mode, w)"
    by (cases op)
  let ?log1 = "fst (log_run [(mode, w)] log e)"
  let ?e1 = "snd (log_run [(mode, w)] log e)"
  from refines_dispatch [OF Cons.prems, of mode w e]
  obtain t1 where d: "dispatch mode t w e = Some (t1, ?e1)" and r1: "refines t1 ?log1"
    by blast
  from Cons.IH [OF r1, of ?e1]
  obtain t' where "run ops t1 ?e1 = Some (t', snd (log_run ops ?log1 ?e1))"
    "refines t' (fst (log_run ops ?log1 ?e1))"
    by blast
  then have "run (op # ops) t e = Some (t', snd (log_run (op # ops) log e)) \<and>
      refines t' (fst (log_run (op # ops) log e))"
    unfolding op log_run_Cons [of mode w ops log e] using d by simp
  then show ?case
    by blast
qed

lemma create_hash_table_refines:
  assumes "create_hash_table n e = (Some t, e')" and "n \<noteq> 0"
  shows "refines t [] \<and> size_tab t = n"
proof -
  from assms(1) have t: "t = \<lparr>buckets = replicate (unat n) [], size_tab = n\<rparr>"
    by (auto simp: create_hash_table_def split: prod.splits bool.splits)
  show ?thesis
    using assms(2) by (simp add: t refines_def wf_table_def)
qed

lemma refines_enumerate:
  assumes r: "refines t log"
  shows "enumerate_table t = Some (by_reverse_insertion t log)"
proof -
  have wf: "wf_table t"
    using r by (rule refines_wf)
  then have len: "length (buckets t) = unat (size_tab t)"
    by (simp add: wf_table_def)
  have "buckets t = map (\<lambda>i. buckets t ! i) [0..<length (buckets t)]"
    by (simp add: map_nth)
  also have "\<dots> = map (\<lambda>i. rev (filter (\<lambda>u. index_of t u = i) log)) [0..<length (buckets t)]"
    by (rule map_cong [OF refl]) (simp add: refines_bucket [OF r])
  finally have "concat (buckets t) = by_reverse_insertion t log"
    by (simp add: by_reverse_insertion_def len)
  then show ?thesis
    by (simp add: enumerate_table_wf [OF wf])
qed

lemma stderr_insert_word:
  "insert_word t w e = Some (t', e') \<Longrightarrow> \<exists>xs. stderr e' = stderr e @ xs"
  by (auto simp: insert_word_def perror_def
      split: option.splits if_splits prod.splits bool.splits dest!: stderr_alloc)

lemma stderr_dispatch:
  "dispatch mode t w e = Some (t', e') \<Longrightarrow> \<exists>xs. stderr e' = stderr e @ xs"
  by (cases mode) (auto dest: stderr_insert_word)

lemma stderr_run: "run ops t e = Some (t', e') \<Longrightarrow> \<exists>xs. stderr e' = stderr e @ xs"
proof (induction ops arbitrary: t e)
  case Nil
  then show ?case by simp
next
  case (Cons op ops)
  obtain mode w where op: "op = (mode, w)"
    by (cases op)
  from Cons.prems op obtain t1 e1 where d: "dispatch mode t w e = Some (t1, e1)"
    and r: "run ops t1 e1 = Some (t', e')"
    by (auto split: option.splits)
  from stderr_dispatch [OF d] obtain xs where "stderr e1 = stderr e @ xs"
    by blast
  moreover from Cons.IH [OF r] obtain ys where "stderr e' = stderr e1 @ ys"
    by blast
  ultimately show ?case
    by simp
qed

lemma insert_word_grows:
  assumes wf: "wf_table t" and ins: "insert_word t w e = Some (t', e')"
  shows "set (concat (buckets t)) \<subseteq> set (concat (buckets t'))"
proof -
  let ?i = "index_of t w"
  from wf have i: "?i < length (buckets t)"
    by (rule index_of_less)
  from ins have "t' = t \<or> t' = t\<lparr>buckets := (buckets t)[?i := strdup w # buckets t ! ?i]\<rparr>"
    by (auto simp: insert_word_wf [OF wf] split: if_splits prod.splits bool.splits)
  then show ?thesis
  proof
    assume "t' = t"
    then show ?thesis by simp
  next
    assume t': "t' = t\<lparr>buckets := (buckets t)[?i := strdup w # buckets t ! ?i]\<rparr>"
    have "set (concat (buckets t)) =
        set (concat (take ?i (buckets t)) @ buckets t ! ?i @ concat (drop (Suc ?i) (buckets t)))"
      using concat_nth_split [OF i] by simp
    moreover have "set (concat (buckets t')) =
        set (concat (take ?i (buckets t)) @ (strdup w # buckets t ! ?i) @
             concat (drop (Suc ?i) (buckets t)))"
      unfolding t' using concat_update_split [OF i] by simp
    ultimately show ?thesis
      by auto
  qed
qed

lemma insert_word_present:
  assumes ins: "insert_word t w e = Some (t', e')" and quiet: "stderr e' = stderr e"
  shows "\<exists>u\<in>set (concat (buckets t')). strcasecmp u w = 0"
proof -
  from insert_word_quiet [OF ins quiet]
  obtain i where i: "bucket_index t' w = Some i" and has: "chain_has (buckets t' ! i) w"
    by blast
  from has obtain u where u: "u \<in> set (buckets t' ! i)" "strcasecmp u w = 0"
    by (auto simp: chain_has_iff)
  from bucket_index_less [OF i] have "buckets t' ! i \<in> set (buckets t')"
    by (rule nth_mem)
  with u show ?thesis
    by auto
qed

lemma run_add_present:
  assumes "table_inv t"
    and "run (map (Pair MODE_ADD) ws) t e = Some (t1, e1)"
    and "stderr e1 = stderr e"
  shows "set (concat (buckets t)) \<subseteq> set (concat (buckets t1)) \<and>
         (\<forall>w\<in>set ws. \<exists>u\<in>set (concat (buckets t1)). strcasecmp u w = 0)"
  using assms
proof (induction ws arbitrary: t e)
  case Nil
  then show ?case by simp
next
  case (Cons x ws)
  from Cons.prems(2) obtain t' e' where ins: "insert_word t x e = Some (t', e')"
    and r: "run (map (Pair MODE_ADD) ws) t' e' = Some (t1, e1)"
    by (auto split: option.splits)
  from Cons.prems(1) have wf: "wf_table t"
    by (simp add: table_inv_def)
  from insert_word_inv [OF Cons.prems(1), of x e] ins have inv': "table_inv t'"
    by simp
  from stderr_insert_word [OF ins] obtain xs where xs: "stderr e' = stderr e @ xs"
    by blast
  from stderr_run [OF r] obtain ys where ys: "stderr e1 = stderr e' @ ys"
    by blast
  from xs ys Cons.prems(3) have q1: "stderr e' = stderr e" and q2: "stderr e1 = stderr e'"
    by simp_all
  from Cons.IH [OF inv' r q2]
  have sub: "set (concat (buckets t')) \<subseteq> set (concat (buckets t1))"
    and rest: "\<forall>w\<in>set ws. \<exists>u\<in>set (concat (buckets t1)). strcasecmp u w = 0"
    by simp_all
  from insert_word_present [OF ins q1] sub
  have "\<exists>u\<in>set (concat (buckets t1)). strcasecmp u x = 0"
    by blast
  moreover from insert_word_grows [OF wf ins] sub
  have "set (concat (buckets t)) \<subseteq> set (concat (buckets t1))"
    by blast
  ultimately show ?case
    using rest by simp
qed

lemma remove_word_shrinks:
  assumes wf: "wf_table t" and rm: "remove_word t w = Some t'"
  shows "set (concat (buckets t')) \<subseteq> set (concat (buckets t))"
proof -
  from remove_word_at_most_one [OF wf, of w] rm
  have "concat (buckets t') = concat (buckets t) \<or>
      (\<exists>ys u zs. concat (buckets t) = ys @ u # zs \<and> concat (buckets t') = ys @ zs \<and>
         strcasecmp u w = 0)"
    by simp
  then show ?thesis
  proof
    assume "concat (buckets t') = concat (buckets t)"
    then have "set (concat (buckets t')) = set (concat (buckets t))"
      by (rule arg_cong)
    then show ?thesis
      by (rule equalityD1)
  next
    assume "\<exists>ys u zs. concat (buckets t) = ys @ u # zs \<and> concat (buckets t') = ys @ zs \<and>
         strcasecmp u w = 0"
    then obtain ys u zs where eq: "concat (buckets t) = ys @ u # zs"
      "concat (buckets t') = ys @ zs"
      by blast
    have "set (ys @ zs) \<subseteq> set (ys @ u # zs)"
      by auto
    then show ?thesis
      unfolding eq .
  qed
qed

lemma run_remove_absent:
  assumes "table_inv t"
  shows "\<exists>t'. run (map (Pair MODE_REMOVE) ws) t e = Some (t', e) \<and> table_inv t' \<and>
           set (concat (buckets t')) \<subseteq> set (concat (buckets t)) \<and>
           (\<forall>w\<in>set ws. \<forall>u\<in>set (concat (buckets t')). strcasecmp u w \<noteq> 0)"
  using assms
proof (induction ws arbitrary: t)
  case Nil
  then show ?case by simp
next
  case (Cons x ws)
  from Cons.prems have wf: "wf_table t"
    by (simp add: table_inv_def)
  from remove_word_absent [OF Cons.prems, of x]
  obtain t2 where rm: "remove_word t x = Some t2" and inv2: "table_inv t2"
    and gone: "\<forall>u\<in>set (concat (buckets t2)). strcasecmp u x \<noteq> 0"
    by blast
  from Cons.IH [OF inv2]
  obtain t' where r: "run (map (Pair MODE_REMOVE) ws) t2 e = Some (t', e)"
    and inv': "table_inv t'"
    and sub: "set (concat (buckets t')) \<subseteq> set (concat (buckets t2))"
    and rest: "\<forall>w\<in>set ws. \<forall>u\<in>set (concat (buckets t')). strcasecmp u w \<noteq> 0"
    by blast
  from remove_word_shrinks [OF wf rm] sub
  have sub': "set (concat (buckets t')) \<subseteq> set (concat (buckets t))"
    by blast
  from gone sub have "\<forall>u\<in>set (concat (buckets t')). strcasecmp u x \<noteq> 0"
    by blast
  with rest have all: "\<forall>w\<in>set (x # ws). \<forall>u\<in>set (concat (buckets t')). strcasecmp u w \<noteq> 0"
    by simp
  from rm r have "run (map (Pair MODE_REMOVE) (x # ws)) t e = Some (t', e)"
    by simp
  with inv' sub' all show ?case
    by blast
qed

lemma by_reverse_insertion_size:
  "size_tab t = size_tab t' \<Longrightarrow> by_reverse_insertion t lg = by_reverse_insertion t' lg"
  by (simp add: by_reverse_insertion_def index_of_def)

lemma alloc_env: "alloc e = (ok, e') \<Longrightarrow> files e' = files e \<and> stdout e' = stdout e \<and> stderr e' = stderr e \<and> junk e' = junk e"
  by (auto simp: alloc_def split: list.splits)

lemma create_hash_table_env:
  "create_hash_table n e = (r, e') \<Longrightarrow> files e' = files e \<and> stdout e' = stdout e \<and> stderr e' = stderr e"
  by (auto simp: create_hash_table_def split: prod.splits bool.splits dest!: alloc_env)

lemma size_tab_dispatch: "dispatch mode t w e = Some (t', e') \<Longrightarrow> size_tab t' = size_tab t"
  by (cases mode)
    (auto simp: insert_word_def remove_word_def split: option.splits if_splits prod.splits bool.splits)

lemma size_tab_run: "run ops t e = Some (t', e') \<Longrightarrow> size_tab t' = size_tab t"
proof (induction ops arbitrary: t e)
  case Nil
  then show ?case by simp
next
  case (Cons op ops)
  obtain mode w where op: "op = (mode, w)"
    by (cases op)
  from Cons.prems op obtain t1 e1 where d: "dispatch mode t w e = Some (t1, e1)"
    and r: "run ops t1 e1 = Some (t', e')"
    by (auto split: option.splits)
  from Cons.IH [OF r] size_tab_dispatch [OF d] show ?case
    by simp
qed

lemma stdout_insert_word: "insert_word t w e = Some (t', e') \<Longrightarrow> stdout e' = stdout e"
  by (auto simp: insert_word_def perror_def
      split: option.splits if_splits prod.splits bool.splits dest!: alloc_env)

lemma stdout_dispatch: "dispatch mode t w e = Some (t', e') \<Longrightarrow> stdout e' = stdout e"
  by (cases mode) (auto dest: stdout_insert_word)

lemma stdout_run: "run ops t e = Some (t', e') \<Longrightarrow> stdout e' = stdout e"
proof (induction ops arbitrary: t e)
  case Nil
  then show ?case by simp
next
  case (Cons op ops)
  obtain mode w where op: "op = (mode, w)"
    by (cases op)
  from Cons.prems op obtain t1 e1 where d: "dispatch mode t w e = Some (t1, e1)"
    and r: "run ops t1 e1 = Some (t', e')"
    by (auto split: option.splits)
  from Cons.IH [OF r] stdout_dispatch [OF d] show ?case
    by simp
qed

lemma process_file_refines:
  assumes r: "refines t lg" and f: "fopen name e = Some bytes"
    and l: "log_run (map (Pair mode) (tokenize 4 63 bytes)) lg e = (lg', e')"
  shows "\<exists>t'. process_file name t mode e = Some (t', e') \<and> refines t' lg' \<and>
           size_tab t' = size_tab t \<and> files e' = files e \<and> stdout e' = stdout e \<and>
           (\<exists>xs. stderr e' = stderr e @ xs)"
proof -
  let ?ops = "map (Pair mode) (tokenize 4 63 bytes)"
  have cfg: "MIN_WORD_LENGTH = 4" "max_len = 63"
    by (simp_all add: MIN_WORD_LENGTH_def max_len_def MAX_WORD_LENGTH_def)
  have p: "process_file name t mode e = run ?ops t e"
    using process_file_run [OF f, of t mode] by (simp only: cfg)
  from refines_run [OF r, of ?ops e] l
  obtain t' where run: "run ?ops t e = Some (t', e')" and r': "refines t' lg'"
    by auto
  from p run have pf: "process_file name t mode e = Some (t', e')"
    by simp
  show ?thesis
    by (intro exI [of _ t'] conjI pf r' size_tab_run [OF run] run_files [OF run]
        stdout_run [OF run] stderr_run [OF run])
qed

lemma fopen_print [simp]: "fopen name (print line e) = fopen name e"
  by (simp add: fopen_def print_def)

lemma fopen_files: "files e' = files e \<Longrightarrow> fopen name e' = fopen name e"
  by (simp add: fopen_def)

lemma main_result:
  assumes cr: "create_hash_table HASH_TABLE_SIZE e = (Some t0, e0)"
    and src: "fopen source e = Some text1"
    and excl: "fopen exclusion e = Some text2"
    and l1: "log_run (map (Pair MODE_ADD) (tokenize 4 63 text1)) []
               (print (''Processing source file: '' @ source) e0) = (lg1, e1)"
    and l2: "log_run (map (Pair MODE_REMOVE) (tokenize 4 63 text2)) lg1
               (print (''Processing exclusion file: '' @ exclusion) e1) = (lg2, e2)"
  shows "main [prog, source, exclusion] e =
           Some (0, (print ''--- Final Vocabulary ---'' (print [] e2))
                      \<lparr>stdout := stdout (print ''--- Final Vocabulary ---'' (print [] e2)) @
                         by_reverse_insertion \<lparr>buckets = [], size_tab = HASH_TABLE_SIZE\<rparr> lg2\<rparr>)"
proof -
  let ?p1 = "print (''Processing source file: '' @ source) e0"
  let ?p2 = "print (''Processing exclusion file: '' @ exclusion) e1"
  let ?p3 = "print ''--- Final Vocabulary ---'' (print [] e2)"
  have nz: "HASH_TABLE_SIZE \<noteq> 0"
    by (simp add: HASH_TABLE_SIZE_def)
  from create_hash_table_refines [OF cr nz]
  have r0: "refines t0 []" and s0: "size_tab t0 = HASH_TABLE_SIZE"
    by simp_all
  from create_hash_table_env [OF cr] have files0: "files e0 = files e"
    by simp
  have f1: "fopen source ?p1 = Some text1"
    using src fopen_files [OF files0, of source] by simp
  from process_file_refines [OF r0 f1 l1]
  obtain t1 where p1: "process_file source t0 MODE_ADD ?p1 = Some (t1, e1)"
    and r1: "refines t1 lg1" and s1: "size_tab t1 = size_tab t0"
    and files1: "files e1 = files ?p1"
    by blast
  from files1 files0 have "files e1 = files e"
    by (simp add: print_def)
  then have f2: "fopen exclusion ?p2 = Some text2"
    using excl fopen_files [of e1 e exclusion] by simp
  from process_file_refines [OF r1 f2 l2]
  obtain t2 where p2: "process_file exclusion t1 MODE_REMOVE ?p2 = Some (t2, e2)"
    and r2: "refines t2 lg2" and s2: "size_tab t2 = size_tab t1"
    by blast
  have ex: "exclusion_loop [exclusion] t1 e1 = Some (t2, e2)"
    using p2 by simp
  have "size_tab t2 = size_tab \<lparr>buckets = [], size_tab = HASH_TABLE_SIZE\<rparr>"
    using s0 s1 s2 by simp
  then have "by_reverse_insertion t2 lg2 =
      by_reverse_insertion \<lparr>buckets = [], size_tab = HASH_TABLE_SIZE\<rparr> lg2"
    by (rule by_reverse_insertion_size)
  with refines_enumerate [OF r2]
  have pr: "print_table t2 ?p3 = Some (?p3\<lparr>stdout := stdout ?p3 @
      by_reverse_insertion \<lparr>buckets = [], size_tab = HASH_TABLE_SIZE\<rparr> lg2\<rparr>)"
    by (simp add: print_table_def)
  show ?thesis
    using cr p1 ex pr by (simp add: main_def)
qed

lemma alloc_env0: "alloc env0 = (True, env0)"
  by (simp add: alloc_def env0_def)

lemma log_step_env:
  "files (snd (log_run [(mode, w)] lg e)) = files e \<and>
   stdout (snd (log_run [(mode, w)] lg e)) = stdout e \<and>
   (\<exists>xs. stderr (snd (log_run [(mode, w)] lg e)) = stderr e @ xs)"
  by (cases mode) (auto simp: perror_def split: prod.splits bool.splits dest!: alloc_env)

lemma log_step_quiet:
  assumes quiet: "stderr (snd (log_run [(mode, w)] lg e)) = stderr e"
  shows "fst (log_run [(mode, w)] lg e) = fst (log_run [(mode, w)] lg env0)"
proof (cases mode)
  case MODE_REMOVE
  then show ?thesis by simp
next
  case MODE_ADD
  show ?thesis
  proof (cases "list_ex (\<lambda>u. strcasecmp u w = 0) lg")
    case True
    with MODE_ADD show ?thesis by simp
  next
    case False
    obtain ok1 e1 where a1: "alloc e = (ok1, e1)"
      by (cases "alloc e")
    obtain ok2 e2 where a2: "alloc e1 = (ok2, e2)"
      by (cases "alloc e1")
    from alloc_env [OF a1] alloc_env [OF a2] have s: "stderr e1 = stderr e" "stderr e2 = stderr e"
      by simp_all
    have "ok1 \<and> ok2"
    proof (rule ccontr)
      assume "\<not> (ok1 \<and> ok2)"
      with MODE_ADD False a1 a2 s have "stderr (snd (log_run [(mode, w)] lg e)) \<noteq> stderr e"
        by (cases ok1) (simp_all add: perror_def)
      with quiet show False
        by simp
    qed
    with MODE_ADD False a1 a2 show ?thesis
      by (simp add: alloc_env0)
  qed
qed

lemma log_step_env0: "snd (log_run [(mode, w)] lg env0) = env0"
  by (cases mode) (simp_all add: alloc_env0)

lemma log_run_env:
  "files (snd (log_run ops lg e)) = files e \<and> stdout (snd (log_run ops lg e)) = stdout e \<and>
   (\<exists>xs. stderr (snd (log_run ops lg e)) = stderr e @ xs)"
proof (induction ops arbitrary: lg e)
  case Nil
  show ?case by simp
next
  case (Cons op ops)
  obtain mode w where op: "op = (mode, w)"
    by (cases op)
  let ?lg = "fst (log_run [(mode, w)] lg e)"
  let ?e = "snd (log_run [(mode, w)] lg e)"
  from log_step_env [of mode w lg e] obtain xs where
    s: "files ?e = files e" "stdout ?e = stdout e" "stderr ?e = stderr e @ xs"
    by blast
  from Cons.IH [of ?lg ?e] obtain ys where
    r: "files (snd (log_run ops ?lg ?e)) = files ?e" "stdout (snd (log_run ops ?lg ?e)) = stdout ?e"
      "stderr (snd (log_run ops ?lg ?e)) = stderr ?e @ ys"
    by blast
  from s r have "files (snd (log_run ops ?lg ?e)) = files e"
    "stdout (snd (log_run ops ?lg ?e)) = stdout e"
    "stderr (snd (log_run ops ?lg ?e)) = stderr e @ (xs @ ys)"
    by simp_all
  then show ?case
    unfolding op log_run_Cons [of mode w ops lg e] by blast
qed

lemma log_run_quiet:
  "stderr (snd (log_run ops lg e)) = stderr e \<Longrightarrow>
     fst (log_run ops lg e) = fst (log_run ops lg env0)"
proof (induction ops arbitrary: lg e)
  case Nil
  show ?case by simp
next
  case (Cons op ops)
  obtain mode w where op: "op = (mode, w)"
    by (cases op)
  let ?lg = "fst (log_run [(mode, w)] lg e)"
  let ?e = "snd (log_run [(mode, w)] lg e)"
  from log_step_env [of mode w lg e] obtain xs where xs: "stderr ?e = stderr e @ xs"
    by blast
  from log_run_env [of ops ?lg ?e] obtain ys where
    ys: "stderr (snd (log_run ops ?lg ?e)) = stderr ?e @ ys"
    by blast
  from Cons.prems have "stderr (snd (log_run ops ?lg ?e)) = stderr e"
    unfolding op log_run_Cons [of mode w ops lg e] .
  with xs ys have q1: "stderr ?e = stderr e" and q2: "stderr (snd (log_run ops ?lg ?e)) = stderr ?e"
    by simp_all
  from log_step_quiet [OF q1] have lg: "?lg = fst (log_run [(mode, w)] lg env0)" .
  from Cons.IH [OF q2] have "fst (log_run ops ?lg ?e) = fst (log_run ops ?lg env0)" .
  then show ?case
    unfolding op log_run_Cons [of mode w ops lg e] log_run_Cons [of mode w ops lg env0]
      log_step_env0 lg .
qed

lemma log_run_remove:
  "log_run (map (Pair MODE_REMOVE) ws) lg e = (fst (log_run (map (Pair MODE_REMOVE) ws) lg env0), e)"
  by (induction ws arbitrary: lg) simp_all

lemma concat_map_Nil: "(\<And>i. i \<in> set xs \<Longrightarrow> F i = []) \<Longrightarrow> concat (map F xs) = []"
  by (induction xs) auto

lemma concat_map_upt_single:
  assumes "m \<le> k" and "k < n" and "\<And>i. m \<le> i \<Longrightarrow> i < n \<Longrightarrow> i \<noteq> k \<Longrightarrow> F i = []"
  shows "concat (map F [m..<n]) = F k"
proof -
  have "[m..<k + (n - k)] = [m..<k] @ [k..<k + (n - k)]"
    using assms(1) by (rule upt_add_eq_append)
  moreover have "k + (n - k) = n"
    using assms(2) by simp
  moreover have "[k..<n] = k # [Suc k..<n]"
    using assms(2) by (rule upt_conv_Cons)
  ultimately have split: "[m..<n] = [m..<k] @ k # [Suc k..<n]"
    by simp
  have lo: "concat (map F [m..<k]) = []"
    using assms by (intro concat_map_Nil) auto
  have hi: "concat (map F [Suc k..<n]) = []"
    using assms by (intro concat_map_Nil) auto
  have "concat (map F [m..<n]) = concat (map F [m..<k]) @ F k @ concat (map F [Suc k..<n])"
    by (simp only: split map_append list.map concat_append concat.simps)
  then show ?thesis
    by (simp only: lo hi append_Nil append_Nil2)
qed

lemma index_of_alpha: "index_of \<lparr>buckets = [], size_tab = HASH_TABLE_SIZE\<rparr> ''alpha'' = 11307"
  by code_simp

lemma index_of_gamma: "index_of \<lparr>buckets = [], size_tab = HASH_TABLE_SIZE\<rparr> ''gamma'' = 10984"
  by code_simp

lemma unat_HASH_TABLE_SIZE: "unat (size_tab \<lparr>buckets = [], size_tab = HASH_TABLE_SIZE\<rparr>) = 16384"
  by (simp add: HASH_TABLE_SIZE_def)

lemma enumerate_alpha:
  "by_reverse_insertion \<lparr>buckets = [], size_tab = HASH_TABLE_SIZE\<rparr> [''alpha''] = [''alpha'']"
proof -
  let ?t = "\<lparr>buckets = [], size_tab = HASH_TABLE_SIZE\<rparr>"
  let ?F = "\<lambda>i. rev (filter (\<lambda>u. index_of ?t u = i) [''alpha''])"
  have "concat (map ?F [0..<16384]) = ?F 11307"
    by (rule concat_map_upt_single) (simp_all add: index_of_alpha)
  then have "by_reverse_insertion ?t [''alpha''] = ?F 11307"
    by (simp only: by_reverse_insertion_def unat_HASH_TABLE_SIZE)
  then show ?thesis
    by (simp add: index_of_alpha)
qed

lemma enumerate_alpha_gamma:
  "by_reverse_insertion \<lparr>buckets = [], size_tab = HASH_TABLE_SIZE\<rparr> [''alpha'', ''gamma''] =
     [''gamma'', ''alpha'']"
proof -
  let ?t = "\<lparr>buckets = [], size_tab = HASH_TABLE_SIZE\<rparr>"
  let ?F = "\<lambda>i. rev (filter (\<lambda>u. index_of ?t u = i) [''alpha'', ''gamma''])"
  have sum: "11000 + 5384 = (16384 :: nat)"
    by simp
  have "[0..<11000 + 5384] = [0..<11000] @ [11000..<11000 + 5384]"
    by (rule upt_add_eq_append) simp
  then have split: "[0..<16384] = [0..<11000] @ [11000..<16384]"
    by (simp only: sum)
  have lo: "concat (map ?F [0..<11000]) = ?F 10984"
    by (rule concat_map_upt_single) (simp_all add: index_of_alpha index_of_gamma)
  have hi: "concat (map ?F [11000..<16384]) = ?F 11307"
    by (rule concat_map_upt_single) (simp_all add: index_of_alpha index_of_gamma)
  have "by_reverse_insertion ?t [''alpha'', ''gamma''] = ?F 10984 @ ?F 11307"
    by (simp only: by_reverse_insertion_def unat_HASH_TABLE_SIZE split map_append concat_append lo hi)
  then show ?thesis
    by (simp add: index_of_alpha index_of_gamma)
qed

lemma create_hash_table_two:
  "allocs e = True # True # rest \<Longrightarrow>
     create_hash_table n e =
       (Some \<lparr>buckets = replicate (unat n) [], size_tab = n\<rparr>, e\<lparr>allocs := rest\<rparr>)"
  by (simp add: create_hash_table_def alloc_def)

lemma create_hash_table_none:
  "allocs e = [] \<Longrightarrow>
     create_hash_table n e = (Some \<lparr>buckets = replicate (unat n) [], size_tab = n\<rparr>, e)"
  by (simp add: create_hash_table_def alloc_def)

lemma tokens_source: "tokenize 4 63 ''alpha beta gamma alpha'' = [''alpha'', ''beta'', ''gamma'', ''alpha'']"
  by code_simp

lemma tokens_exclusion: "tokenize 4 63 ''BETA'' = [''beta'']"
  by code_simp

lemma log_source:
  "fst (log_run (map (Pair MODE_ADD) [''alpha'', ''beta'', ''gamma'', ''alpha'']) [] env0) =
     [''alpha'', ''beta'', ''gamma'']"
  by code_simp

lemma log_exclusion:
  "fst (log_run (map (Pair MODE_REMOVE) [''beta'']) [''alpha'', ''beta'', ''gamma''] env0) =
     [''alpha'', ''gamma'']"
  by code_simp

section \<open>Claims\<close>

text \<open>
  C4. Hash congruence under case folding: two strings that \<open>strcasecmp\<close> finds equal
  have the same hash value, hence the same bucket index for any bucket count.
\<close>

theorem hash_string_case_congruent:
  "strcasecmp a b = 0 \<Longrightarrow>
     hash_string a = hash_string b \<and>
     unat (hash_string a) mod n = unat (hash_string b) mod n"
  by (simp add: strcasecmp_0_iff hash_string_fold)

theorem hash_string_case_congruent_witness:
  "strcasecmp ''Apple'' ''aPPLE'' = 0 \<and>
   hash_string ''Apple'' = hash_string ''aPPLE'' \<and>
   unat (hash_string ''Apple'') mod 16384 = unat (hash_string ''aPPLE'') mod 16384"
proof -
  have eq: "strcasecmp ''Apple'' ''aPPLE'' = 0"
    by code_simp
  show ?thesis
    using eq hash_string_case_congruent [OF eq, of 16384] by simp
qed

text \<open>
  C2. From the empty table that \<open>create_hash_table\<close> returns (for a bucket count that
  is not zero), every sequence of insert and remove calls runs to the end, whatever the
  allocator does, and leaves a table that satisfies the set invariant: each stored word
  lies in the bucket \<open>hash(word) mod N\<close>, no bucket holds a word twice, and no two stored
  words are equal under case-insensitive comparison.
\<close>

theorem set_invariant_preserved:
  assumes "create_hash_table n e = (Some t, e')" and "n \<noteq> 0"
  shows "\<exists>t' e''. run ops t e' = Some (t', e'') \<and> table_inv t'"
  using run_inv [OF create_hash_table_inv [OF assms]] .

theorem set_invariant_preserved_witness:
  "create_hash_table 2 env0 = (Some \<lparr>buckets = [[], []], size_tab = 2\<rparr>, env0) \<and> (2 :: ulong) \<noteq> 0 \<and>
   (\<exists>t' e''. run [(MODE_ADD, ''Apple''), (MODE_ADD, ''pear''), (MODE_ADD, ''apple''), (MODE_REMOVE, ''PEAR'')]
        \<lparr>buckets = [[], []], size_tab = 2\<rparr> env0 = Some (t', e'') \<and> table_inv t')"
proof -
  have c: "create_hash_table 2 env0 = (Some \<lparr>buckets = [[], []], size_tab = 2\<rparr>, env0)"
    by code_simp
  have n: "(2 :: ulong) \<noteq> 0"
    by simp
  from set_invariant_preserved [OF c n] c n show ?thesis
    by blast
qed

text \<open>
  C5, as the code has it. Insert idempotence holds after an insert that was not
  abandoned: when the insert of \<open>w\<close> reports no allocation failure (so that \<open>w\<close> was
  stored or was already present), an insert of any case variant \<open>v\<close> of \<open>w\<close> returns
  the table and the environment as they are: it modifies nothing, requests no memory, and
  the enumerable content stays what it was after the first insert.
\<close>

theorem insert_idempotent:
  assumes "insert_word t w e = Some (t1, e1)" and "stderr e1 = stderr e"
    and "strcasecmp v w = 0"
  shows "insert_word t1 v e2 = Some (t1, e2)"
proof -
  from insert_word_quiet [OF assms(1,2)]
  obtain i where "bucket_index t1 w = Some i" "chain_has (buckets t1 ! i) w"
    by blast
  with assms(3) have "bucket_index t1 v = Some i" "chain_has (buckets t1 ! i) v"
    by (simp_all add: bucket_index_cong chain_has_cong)
  then show ?thesis
    by (simp add: insert_word_def)
qed

theorem insert_idempotent_witness:
  "insert_word \<lparr>buckets = [[], []], size_tab = 2\<rparr> ''Apple'' env0 =
     Some (\<lparr>buckets = [[], [''Apple'']], size_tab = 2\<rparr>, env0) \<and>
   stderr env0 = stderr env0 \<and> strcasecmp ''aPPLE'' ''Apple'' = 0 \<and>
   insert_word \<lparr>buckets = [[], [''Apple'']], size_tab = 2\<rparr> ''aPPLE'' env0 =
     Some (\<lparr>buckets = [[], [''Apple'']], size_tab = 2\<rparr>, env0)"
proof -
  have a: "insert_word \<lparr>buckets = [[], []], size_tab = 2\<rparr> ''Apple'' env0 =
     Some (\<lparr>buckets = [[], [''Apple'']], size_tab = 2\<rparr>, env0)"
    by code_simp
  have b: "strcasecmp ''aPPLE'' ''Apple'' = 0"
    by code_simp
  from insert_idempotent [OF a refl b, of env0] a b show ?thesis
    by simp
qed

text \<open>
  Without that proviso the claim fails: when the node allocation of the first insert
  fails, \<open>Apple\<close> is not stored, and the insert of the variant \<open>aPPLE\<close> that follows stores
  it, so that the second insert does modify the set.
\<close>

theorem insert_idempotent_counterexample:
  "insert_word \<lparr>buckets = [[], []], size_tab = 2\<rparr> ''Apple'' (env0\<lparr>allocs := [False]\<rparr>) =
     Some (\<lparr>buckets = [[], []], size_tab = 2\<rparr>,
           env0\<lparr>stderr := [''Failed to allocate memory for new node'']\<rparr>) \<and>
   strcasecmp ''aPPLE'' ''Apple'' = 0 \<and>
   insert_word \<lparr>buckets = [[], []], size_tab = 2\<rparr> ''aPPLE''
       (env0\<lparr>stderr := [''Failed to allocate memory for new node'']\<rparr>) =
     Some (\<lparr>buckets = [[], [''aPPLE'']], size_tab = 2\<rparr>,
           env0\<lparr>stderr := [''Failed to allocate memory for new node'']\<rparr>) \<and>
   enumerate_table \<lparr>buckets = [[], []], size_tab = 2\<rparr> = Some [] \<and>
   enumerate_table \<lparr>buckets = [[], [''aPPLE'']], size_tab = 2\<rparr> = Some [''aPPLE'']"
  by code_simp

text \<open>
  C6. Case-insensitive removal, on a table that satisfies the set invariant. After an
  insert of \<open>w\<close> and a remove of a case variant \<open>v\<close> (\<open>Apple\<close> and \<open>apple\<close>), no
  enumerated entry is equal to \<open>w\<close> up to case. A remove unlinks at most one entry:
  the enumeration is unchanged or loses exactly one entry, which matches the word.
  Removing a word that matches no stored entry returns the same table and environment.
\<close>

theorem remove_case_insensitive:
  assumes "table_inv t" and "strcasecmp v w = 0"
  shows "(\<exists>t1 e1 t2 ws. insert_word t w e = Some (t1, e1) \<and> remove_word t1 v = Some t2 \<and>
            enumerate_table t2 = Some ws \<and> (\<forall>u\<in>set ws. strcasecmp u w \<noteq> 0)) \<and>
         (\<exists>t' ws ws'. remove_word t x = Some t' \<and> enumerate_table t = Some ws \<and>
            enumerate_table t' = Some ws' \<and>
            (ws' = ws \<or> (\<exists>ys u zs. ws = ys @ u # zs \<and> ws' = ys @ zs \<and> strcasecmp u x = 0))) \<and>
         ((\<forall>u\<in>set (concat (buckets t)). strcasecmp u x \<noteq> 0) \<longrightarrow>
            dispatch MODE_REMOVE t x e = Some (t, e))"
proof (intro conjI impI)
  from insert_word_inv [OF assms(1), of w e]
  obtain t1 e1 where ins: "insert_word t w e = Some (t1, e1)" "table_inv t1"
    by blast
  from remove_word_absent [OF ins(2), of v]
  obtain t2 where rm: "remove_word t1 v = Some t2" "table_inv t2"
    "\<forall>u\<in>set (concat (buckets t2)). strcasecmp u v \<noteq> 0"
    by blast
  from rm(2) have "enumerate_table t2 = Some (concat (buckets t2))"
    by (simp add: table_inv_def enumerate_table_wf)
  moreover from rm(3) assms(2) have "\<forall>u\<in>set (concat (buckets t2)). strcasecmp u w \<noteq> 0"
    by (simp add: strcasecmp_trans_left)
  ultimately show "\<exists>t1 e1 t2 ws. insert_word t w e = Some (t1, e1) \<and>
      remove_word t1 v = Some t2 \<and> enumerate_table t2 = Some ws \<and>
      (\<forall>u\<in>set ws. strcasecmp u w \<noteq> 0)"
    using ins(1) rm(1) by blast
next
  from assms(1) have wf: "wf_table t"
    by (simp add: table_inv_def)
  from remove_word_at_most_one [OF wf, of x]
  obtain t' where t': "remove_word t x = Some t'" "wf_table t'"
    "concat (buckets t') = concat (buckets t) \<or>
     (\<exists>ys u zs. concat (buckets t) = ys @ u # zs \<and> concat (buckets t') = ys @ zs \<and>
        strcasecmp u x = 0)"
    by blast
  with wf show "\<exists>t' ws ws'. remove_word t x = Some t' \<and> enumerate_table t = Some ws \<and>
      enumerate_table t' = Some ws' \<and>
      (ws' = ws \<or> (\<exists>ys u zs. ws = ys @ u # zs \<and> ws' = ys @ zs \<and> strcasecmp u x = 0))"
    by (simp add: enumerate_table_wf)
next
  assume "\<forall>u\<in>set (concat (buckets t)). strcasecmp u x \<noteq> 0"
  with assms(1) have "remove_word t x = Some t"
    by (simp add: table_inv_def remove_word_no_match)
  then show "dispatch MODE_REMOVE t x e = Some (t, e)"
    by simp
qed

theorem remove_case_insensitive_witness:
  "table_inv \<lparr>buckets = [[''gamma''], [''pear'']], size_tab = 2\<rparr> \<and> strcasecmp ''apple'' ''Apple'' = 0 \<and>
   (\<exists>t1 e1 t2 ws. insert_word \<lparr>buckets = [[''gamma''], [''pear'']], size_tab = 2\<rparr> ''Apple'' env0 = Some (t1, e1) \<and>
      remove_word t1 ''apple'' = Some t2 \<and> enumerate_table t2 = Some ws \<and>
      (\<forall>u\<in>set ws. strcasecmp u ''Apple'' \<noteq> 0)) \<and>
   list_all (\<lambda>u. strcasecmp u ''plum'' \<noteq> 0)
     (concat (buckets \<lparr>buckets = [[''gamma''], [''pear'']], size_tab = 2\<rparr>)) \<and>
   dispatch MODE_REMOVE \<lparr>buckets = [[''gamma''], [''pear'']], size_tab = 2\<rparr> ''plum'' env0 =
     Some (\<lparr>buckets = [[''gamma''], [''pear'']], size_tab = 2\<rparr>, env0)"
proof -
  let ?t = "\<lparr>buckets = [[''gamma''], [''pear'']], size_tab = 2\<rparr>"
  have inv: "table_inv ?t"
    by code_simp
  have eq: "strcasecmp ''apple'' ''Apple'' = 0"
    by code_simp
  have none: "\<forall>u\<in>set (concat (buckets ?t)). strcasecmp u ''plum'' \<noteq> 0"
    by code_simp
  have all: "list_all (\<lambda>u. strcasecmp u ''plum'' \<noteq> 0) (concat (buckets ?t))"
    by code_simp
  from remove_case_insensitive [OF inv eq, of env0 "''plum''"] inv eq none all show ?thesis
    by blast
qed

text \<open>
  C8. Allocation failure during insert. When the word is not in the table (so that
  \<open>insert_word\<close> requests memory) and the node allocation fails, or the node allocation
  succeeds and the copy of the word fails, \<open>insert_word\<close> returns normally with the
  table exactly as it was, the failure is reported by one line on the error stream, and
  the operations that follow in the run are executed on the unchanged table.
\<close>

theorem insert_allocation_failure:
  assumes "wf_table t" and "\<not> chain_has (buckets t ! index_of t w) w"
    and "allocs e = False # rest \<and> msg = ''Failed to allocate memory for new node'' \<or>
         allocs e = True # False # rest \<and> msg = ''Failed to duplicate word string''"
  shows "insert_word t w e = Some (t, e\<lparr>allocs := rest, stderr := stderr e @ [msg]\<rparr>) \<and>
         run ((MODE_ADD, w) # ops) t e = run ops t (e\<lparr>allocs := rest, stderr := stderr e @ [msg]\<rparr>)"
  using insert_word_abandoned [OF assms] by simp

theorem insert_allocation_failure_witness:
  "wf_table \<lparr>buckets = [[''gamma''], []], size_tab = 2\<rparr> \<and>
   \<not> chain_has (buckets \<lparr>buckets = [[''gamma''], []], size_tab = 2\<rparr> !
          index_of \<lparr>buckets = [[''gamma''], []], size_tab = 2\<rparr> ''pear'') ''pear'' \<and>
   allocs (env0\<lparr>allocs := [True, False, True]\<rparr>) = [True, False, True] \<and>
   insert_word \<lparr>buckets = [[''gamma''], []], size_tab = 2\<rparr> ''pear'' (env0\<lparr>allocs := [True, False, True]\<rparr>) =
     Some (\<lparr>buckets = [[''gamma''], []], size_tab = 2\<rparr>,
           env0\<lparr>allocs := [True], stderr := [''Failed to duplicate word string'']\<rparr>) \<and>
   run [(MODE_ADD, ''pear''), (MODE_ADD, ''plum'')] \<lparr>buckets = [[''gamma''], []], size_tab = 2\<rparr>
       (env0\<lparr>allocs := [True, False, True]\<rparr>) =
     Some (\<lparr>buckets = [[''gamma''], [''plum'']], size_tab = 2\<rparr>,
           env0\<lparr>stderr := [''Failed to duplicate word string'']\<rparr>)"
proof -
  let ?t = "\<lparr>buckets = [[''gamma''], []], size_tab = 2\<rparr>"
  let ?e = "env0\<lparr>allocs := [True, False, True]\<rparr>"
  have wf: "wf_table ?t"
    by code_simp
  have absent: "\<not> chain_has (buckets ?t ! index_of ?t ''pear'') ''pear''"
    by code_simp
  have fail: "allocs ?e = False # [True] \<and>
      ''Failed to duplicate word string'' = ''Failed to allocate memory for new node'' \<or>
      allocs ?e = True # False # [True] \<and>
      ''Failed to duplicate word string'' = ''Failed to duplicate word string''"
    by simp
  have stderr0: "stderr ?e = []"
    by (simp add: env0_def)
  have rest: "run [(MODE_ADD, ''plum'')] ?t (env0\<lparr>allocs := [True], stderr := [''Failed to duplicate word string'']\<rparr>) =
     Some (\<lparr>buckets = [[''gamma''], [''plum'']], size_tab = 2\<rparr>,
           env0\<lparr>stderr := [''Failed to duplicate word string'']\<rparr>)"
    by code_simp
  from insert_allocation_failure [OF wf absent fail, of "[(MODE_ADD, ''plum'')]"] wf absent stderr0 rest
  show ?thesis
    by simp
qed

text \<open>
  C9. Frame property. \<open>insert_word\<close> and \<open>remove_word\<close> leave the bucket count and every
  bucket other than the one at \<open>hash(w) mod N\<close> unchanged. In the target bucket, insert
  either changes nothing or puts the copy of the word in front of the old chain, which
  is kept as it was; remove either changes nothing or takes one matching entry out of
  the chain, the entries before and after it keeping their order.
\<close>

theorem frame_property:
  assumes "wf_table t"
  shows "(\<exists>t' e'. insert_word t w e = Some (t', e') \<and> size_tab t' = size_tab t \<and>
            length (buckets t') = length (buckets t) \<and>
            (\<forall>j<length (buckets t). j \<noteq> index_of t w \<longrightarrow> buckets t' ! j = buckets t ! j) \<and>
            (buckets t' ! index_of t w = buckets t ! index_of t w \<or>
             buckets t' ! index_of t w = strdup w # buckets t ! index_of t w)) \<and>
         (\<exists>t'. remove_word t w = Some t' \<and> size_tab t' = size_tab t \<and>
            length (buckets t') = length (buckets t) \<and>
            (\<forall>j<length (buckets t). j \<noteq> index_of t w \<longrightarrow> buckets t' ! j = buckets t ! j) \<and>
            (buckets t' ! index_of t w = buckets t ! index_of t w \<or>
             (\<exists>ys u zs. buckets t ! index_of t w = ys @ u # zs \<and>
                buckets t' ! index_of t w = ys @ zs \<and> strcasecmp u w = 0)))"
proof (rule conjI)
  let ?i = "index_of t w"
  from assms have i: "?i < length (buckets t)"
    by (rule index_of_less)
  show "\<exists>t' e'. insert_word t w e = Some (t', e') \<and> size_tab t' = size_tab t \<and>
          length (buckets t') = length (buckets t) \<and>
          (\<forall>j<length (buckets t). j \<noteq> ?i \<longrightarrow> buckets t' ! j = buckets t ! j) \<and>
          (buckets t' ! ?i = buckets t ! ?i \<or> buckets t' ! ?i = strdup w # buckets t ! ?i)"
    using i by (auto simp: insert_word_wf [OF assms] split: prod.splits bool.splits)
  let ?t' = "t\<lparr>buckets := (buckets t)[?i := unlink (buckets t ! ?i) w]\<rparr>"
  have rm: "remove_word t w = Some ?t'"
    using assms by (rule remove_word_wf)
  have same: "\<forall>j<length (buckets t). j \<noteq> ?i \<longrightarrow> buckets ?t' ! j = buckets t ! j"
    by simp
  have tgt: "buckets ?t' ! ?i = unlink (buckets t ! ?i) w"
    using i by simp
  from unlink_cases [of "buckets t ! ?i" w]
  have "buckets ?t' ! ?i = buckets t ! ?i \<or>
        (\<exists>ys u zs. buckets t ! ?i = ys @ u # zs \<and> buckets ?t' ! ?i = ys @ zs \<and>
           strcasecmp u w = 0)"
    unfolding tgt by blast
  with rm same show "\<exists>t'. remove_word t w = Some t' \<and> size_tab t' = size_tab t \<and>
          length (buckets t') = length (buckets t) \<and>
          (\<forall>j<length (buckets t). j \<noteq> ?i \<longrightarrow> buckets t' ! j = buckets t ! j) \<and>
          (buckets t' ! ?i = buckets t ! ?i \<or>
           (\<exists>ys u zs. buckets t ! ?i = ys @ u # zs \<and> buckets t' ! ?i = ys @ zs \<and>
              strcasecmp u w = 0))"
    by (intro exI [of _ ?t']) simp
qed

theorem frame_property_witness:
  "wf_table \<lparr>buckets = [[''gamma''], [''plum'', ''pear'', ''beta'']], size_tab = 2\<rparr> \<and>
   index_of \<lparr>buckets = [[''gamma''], [''plum'', ''pear'', ''beta'']], size_tab = 2\<rparr> ''PEAR'' = 1 \<and>
   insert_word \<lparr>buckets = [[''gamma''], [''plum'', ''pear'', ''beta'']], size_tab = 2\<rparr> ''alpha'' env0 =
     Some (\<lparr>buckets = [[''gamma''], [''alpha'', ''plum'', ''pear'', ''beta'']], size_tab = 2\<rparr>, env0) \<and>
   remove_word \<lparr>buckets = [[''gamma''], [''plum'', ''pear'', ''beta'']], size_tab = 2\<rparr> ''PEAR'' =
     Some \<lparr>buckets = [[''gamma''], [''plum'', ''beta'']], size_tab = 2\<rparr> \<and>
   (\<exists>t'. remove_word \<lparr>buckets = [[''gamma''], [''plum'', ''pear'', ''beta'']], size_tab = 2\<rparr> ''PEAR'' = Some t' \<and>
      (\<forall>j<2. j \<noteq> 1 \<longrightarrow> buckets t' ! j = [[''gamma''], [''plum'', ''pear'', ''beta'']] ! j))"
proof -
  let ?t = "\<lparr>buckets = [[''gamma''], [''plum'', ''pear'', ''beta'']], size_tab = 2\<rparr>"
  have wf: "wf_table ?t"
    by code_simp
  have i: "index_of ?t ''PEAR'' = 1"
    by code_simp
  have ins: "insert_word ?t ''alpha'' env0 =
     Some (\<lparr>buckets = [[''gamma''], [''alpha'', ''plum'', ''pear'', ''beta'']], size_tab = 2\<rparr>, env0)"
    by code_simp
  have rm: "remove_word ?t ''PEAR'' = Some \<lparr>buckets = [[''gamma''], [''plum'', ''beta'']], size_tab = 2\<rparr>"
    by code_simp
  from frame_property [OF wf, of "''PEAR''" env0] i
  have "\<exists>t'. remove_word ?t ''PEAR'' = Some t' \<and>
      (\<forall>j<2. j \<noteq> 1 \<longrightarrow> buckets t' ! j = [[''gamma''], [''plum'', ''pear'', ''beta'']] ! j)"
    by auto
  with wf i ins rm show ?thesis
    by blast
qed

text \<open>
  C3. Tokenization rule. For every file that can be opened and every content of it,
  \<open>process_file\<close> feeds to \<open>insert_word\<close> or \<open>remove_word\<close> (according to the mode) exactly
  the tokens of the specification, in order: the maximal runs of ASCII letters,
  lowercased, truncated to 63 characters and kept when at least 4 characters long. Every
  other byte is a delimiter, an empty run gives nothing, and the run pending at the end
  of the file is treated like the others. The bytes that the uninitialised buffer held
  have no influence.
\<close>

theorem tokenization_rule:
  assumes "fopen filename e = Some bytes"
  shows "process_file filename t mode e = run (map (Pair mode) (tokenize 4 63 bytes)) t e"
  using process_file_run [OF assms, of t mode]
  by (simp add: MIN_WORD_LENGTH_def max_len_def MAX_WORD_LENGTH_def)

theorem tokenization_rule_witness:
  "fopen ''f'' (env0\<lparr>files := [(''f'', ''The quick brown Fox jumps'')], junk := ''????''\<rparr>) =
     Some ''The quick brown Fox jumps'' \<and>
   tokenize 4 63 ''The quick brown Fox jumps'' = [''quick'', ''brown'', ''jumps''] \<and>
   tokenize 3 63 ''foo123bar  BAZ!!qux'' = [''foo'', ''bar'', ''baz'', ''qux''] \<and>
   process_file ''f'' \<lparr>buckets = [[], []], size_tab = 2\<rparr> MODE_ADD
       (env0\<lparr>files := [(''f'', ''The quick brown Fox jumps'')], junk := ''????''\<rparr>) =
     run [(MODE_ADD, ''quick''), (MODE_ADD, ''brown''), (MODE_ADD, ''jumps'')]
       \<lparr>buckets = [[], []], size_tab = 2\<rparr>
       (env0\<lparr>files := [(''f'', ''The quick brown Fox jumps'')], junk := ''????''\<rparr>) \<and>
   process_file ''f'' \<lparr>buckets = [[], []], size_tab = 2\<rparr> MODE_ADD
       (env0\<lparr>files := [(''f'', ''The quick brown Fox jumps'')], junk := ''????''\<rparr>) =
     Some (\<lparr>buckets = [[''jumps'', ''quick''], [''brown'']], size_tab = 2\<rparr>,
           env0\<lparr>files := [(''f'', ''The quick brown Fox jumps'')], junk := ''????''\<rparr>)"
proof -
  let ?e = "env0\<lparr>files := [(''f'', ''The quick brown Fox jumps'')], junk := ''????''\<rparr>"
  let ?t = "\<lparr>buckets = [[], []], size_tab = 2\<rparr>"
  have f: "fopen ''f'' ?e = Some ''The quick brown Fox jumps''"
    by code_simp
  have tk: "tokenize 4 63 ''The quick brown Fox jumps'' = [''quick'', ''brown'', ''jumps'']"
    by code_simp
  have tk3: "tokenize 3 63 ''foo123bar  BAZ!!qux'' = [''foo'', ''bar'', ''baz'', ''qux'']"
    by code_simp
  have r: "run [(MODE_ADD, ''quick''), (MODE_ADD, ''brown''), (MODE_ADD, ''jumps'')] ?t ?e =
      Some (\<lparr>buckets = [[''jumps'', ''quick''], [''brown'']], size_tab = 2\<rparr>, ?e)"
    by code_simp
  from tokenization_rule [OF f, of ?t MODE_ADD] f tk tk3 r show ?thesis
    by simp
qed

text \<open>
  C7, as the code has it. Enumeration visits the buckets in index order \<open>0..N-1\<close> and,
  within each bucket, the entries in reverse insertion order, the most recently inserted
  first: \<open>insert_word\<close> links a new node at the head of its chain. This holds for every
  table reached from the empty one by insert and remove calls, \<open>log_run\<close> giving the
  stored words in the order of their insertion.
\<close>

theorem enumeration_order:
  assumes "create_hash_table n e0 = (Some t0, e)" and "n \<noteq> 0"
  shows "\<exists>t. run ops t0 e = Some (t, snd (log_run ops [] e)) \<and>
             enumerate_table t = Some (by_reverse_insertion t (fst (log_run ops [] e)))"
proof -
  from create_hash_table_refines [OF assms] have "refines t0 []"
    by simp
  from refines_run [OF this, of ops e]
  obtain t where "run ops t0 e = Some (t, snd (log_run ops [] e))"
    "refines t (fst (log_run ops [] e))"
    by blast
  with refines_enumerate show ?thesis
    by blast
qed

theorem enumeration_order_witness:
  "\<exists>t. run [(MODE_ADD, ''alpha''), (MODE_ADD, ''gamma''), (MODE_ADD, ''beta''), (MODE_REMOVE, ''GAMMA''),
             (MODE_ADD, ''gamma'')] \<lparr>buckets = [[], []], size_tab = 2\<rparr> env0 =
         Some (t, snd (log_run [(MODE_ADD, ''alpha''), (MODE_ADD, ''gamma''), (MODE_ADD, ''beta''),
                                (MODE_REMOVE, ''GAMMA''), (MODE_ADD, ''gamma'')] [] env0)) \<and>
       enumerate_table t =
         Some (by_reverse_insertion t
                (fst (log_run [(MODE_ADD, ''alpha''), (MODE_ADD, ''gamma''), (MODE_ADD, ''beta''),
                               (MODE_REMOVE, ''GAMMA''), (MODE_ADD, ''gamma'')] [] env0)))"
proof -
  have c: "create_hash_table 2 env0 = (Some \<lparr>buckets = [[], []], size_tab = 2\<rparr>, env0)"
    by code_simp
  have n: "(2 :: ulong) \<noteq> 0"
    by simp
  show ?thesis
    using enumeration_order [OF c n] .
qed

text \<open>
  Within a bucket the enumeration is not in insertion order: \<open>alpha\<close> and then \<open>beta\<close>,
  inserted into a table of two buckets, fall into bucket 1 and are enumerated \<open>beta\<close>
  first.
\<close>

theorem enumeration_order_counterexample:
  "create_hash_table 2 env0 = (Some \<lparr>buckets = [[], []], size_tab = 2\<rparr>, env0) \<and>
   run [(MODE_ADD, ''alpha''), (MODE_ADD, ''beta'')] \<lparr>buckets = [[], []], size_tab = 2\<rparr> env0 =
     Some (\<lparr>buckets = [[], [''beta'', ''alpha'']], size_tab = 2\<rparr>, env0) \<and>
   fst (log_run [(MODE_ADD, ''alpha''), (MODE_ADD, ''beta'')] [] env0) = [''alpha'', ''beta''] \<and>
   by_insertion \<lparr>buckets = [[], [''beta'', ''alpha'']], size_tab = 2\<rparr> [''alpha'', ''beta''] =
     [''alpha'', ''beta''] \<and>
   enumerate_table \<lparr>buckets = [[], [''beta'', ''alpha'']], size_tab = 2\<rparr> = Some [''beta'', ''alpha''] \<and>
   enumerate_table \<lparr>buckets = [[], [''beta'', ''alpha'']], size_tab = 2\<rparr> \<noteq>
     Some (by_insertion \<lparr>buckets = [[], [''beta'', ''alpha'']], size_tab = 2\<rparr> [''alpha'', ''beta''])"
  by code_simp

text \<open>
  C10, as the code has it. Let \<open>r1\<close>, \<open>r2\<close> and \<open>r3\<close> be runs of at least 63 letters whose
  first 63 characters agree up to case. In any file and context that makes it a maximal
  run (\<open>pre\<close> empty or ending with a delimiter, \<open>post\<close> empty or starting with one),
  \<open>r1\<close> and \<open>r2\<close> make \<open>process_file\<close> pass on the same word, the lowercase of those
  63 characters, between the words of \<open>pre\<close> and those of \<open>post\<close>. A source file that
  holds \<open>r1\<close> and \<open>r2\<close> anywhere, processed in add mode on a table that satisfies the
  set invariant, leaves at most one member equal to that word, and exactly one when no
  allocation failure is reported; an exclusion file that holds \<open>r3\<close> anywhere, processed
  in remove mode afterwards, leaves none.
\<close>

theorem truncation_collapse:
  assumes r1: "\<forall>c\<in>set r1. isalpha c" "63 \<le> length r1"
    and r2: "\<forall>c\<in>set r2. isalpha c" "63 \<le> length r2"
    and r3: "\<forall>c\<in>set r3. isalpha c" "63 \<le> length r3"
    and agree2: "map tolower (take 63 r2) = map tolower (take 63 r1)"
    and agree3: "map tolower (take 63 r3) = map tolower (take 63 r1)"
    and pre: "pre = [] \<or> \<not> isalpha (last pre)"
    and post: "post = [] \<or> \<not> isalpha (hd post)"
    and mid: "mid \<noteq> []" "\<not> isalpha (hd mid)" "\<not> isalpha (last mid)"
    and p: "p = [] \<or> \<not> isalpha (last p)"
    and q: "q = [] \<or> \<not> isalpha (hd q)"
    and inv: "table_inv t"
    and src: "fopen source e = Some (pre @ r1 @ mid @ r2 @ post)"
  shows "(fopen f e' = Some (pre @ r1 @ post) \<or> fopen f e' = Some (pre @ r2 @ post) \<longrightarrow>
           process_file f t' mode e' =
             run (map (Pair mode)
                   (tokenize 4 63 pre @ [map tolower (take 63 r1)] @ tokenize 4 63 post)) t' e') \<and>
         (\<exists>t1 e1.
            process_file source t MODE_ADD e = Some (t1, e1) \<and>
            length (filter (\<lambda>u. strcasecmp u (map tolower (take 63 r1)) = 0)
                      (concat (buckets t1))) \<le> 1 \<and>
            (stderr e1 = stderr e \<longrightarrow>
               length (filter (\<lambda>u. strcasecmp u (map tolower (take 63 r1)) = 0)
                         (concat (buckets t1))) = 1) \<and>
            (\<forall>e2. fopen exclusion e2 = Some (p @ r3 @ q) \<longrightarrow>
               (\<exists>t2. process_file exclusion t1 MODE_REMOVE e2 = Some (t2, e2) \<and>
                  filter (\<lambda>u. strcasecmp u (map tolower (take 63 r1)) = 0)
                    (concat (buckets t2)) = [])))"
proof (intro conjI impI)
  let ?tok = "map tolower (take 63 r1)"
  let ?match = "\<lambda>u. strcasecmp u ?tok = 0"
  let ?T = "tokenize 4 63"
  have cfg: "MIN_WORD_LENGTH = 4" "max_len = 63"
    by (simp_all add: MIN_WORD_LENGTH_def max_len_def MAX_WORD_LENGTH_def)
  have ctx: "?T (a @ r @ b) = ?T a @ [?tok] @ ?T b"
    if "\<forall>c\<in>set r. isalpha c" "63 \<le> length r" "map tolower (take 63 r) = ?tok"
      "a = [] \<or> \<not> isalpha (last a)" "b = [] \<or> \<not> isalpha (hd b)" for a r b
    using tokenize_context [of r 63 4 a b] that by simp
  {
    assume "fopen f e' = Some (pre @ r1 @ post) \<or> fopen f e' = Some (pre @ r2 @ post)"
    then show "process_file f t' mode e' =
        run (map (Pair mode) (?T pre @ [?tok] @ ?T post)) t' e'"
    proof
      assume f: "fopen f e' = Some (pre @ r1 @ post)"
      from process_file_run [OF f, of t' mode] ctx [OF r1 refl pre post] show ?thesis
        by (simp only: cfg)
    next
      assume f: "fopen f e' = Some (pre @ r2 @ post)"
      from process_file_run [OF f, of t' mode] ctx [OF r2 agree2 pre post] show ?thesis
        by (simp only: cfg)
    qed
  }
  have tail: "?T (mid @ r2 @ post) = ?T mid @ [?tok] @ ?T post"
    using r2 agree2 mid(3) post by (intro ctx) simp_all
  have "mid @ r2 @ post = [] \<or> \<not> isalpha (hd (mid @ r2 @ post))"
    using mid(1,2) by simp
  with r1 pre have "?T (pre @ r1 @ (mid @ r2 @ post)) = ?T pre @ [?tok] @ ?T (mid @ r2 @ post)"
    by (intro ctx) simp_all
  with tail have toks: "?T (pre @ r1 @ mid @ r2 @ post) =
      ?T pre @ [?tok] @ ?T mid @ [?tok] @ ?T post"
    by simp
  let ?ws = "?T pre @ [?tok] @ ?T mid @ [?tok] @ ?T post"
  have add: "process_file source t MODE_ADD e = run (map (Pair MODE_ADD) ?ws) t e"
    using process_file_run [OF src, of t MODE_ADD] by (simp only: cfg toks)
  from run_inv [OF inv, of "map (Pair MODE_ADD) ?ws" e]
  obtain t1 e1 where run1: "run (map (Pair MODE_ADD) ?ws) t e = Some (t1, e1)"
    and inv1: "table_inv t1"
    by blast
  have le1: "length (filter ?match (concat (buckets t1))) \<le> 1"
    using inv1 by (rule table_inv_match_le1)
  have eq1: "length (filter ?match (concat (buckets t1))) = 1" if quiet: "stderr e1 = stderr e"
  proof -
    from run_add_present [OF inv run1 quiet]
    have "\<forall>w\<in>set ?ws. \<exists>u\<in>set (concat (buckets t1)). strcasecmp u w = 0"
      by blast
    then obtain u where "u \<in> set (concat (buckets t1))" "strcasecmp u ?tok = 0"
      by auto
    then have "u \<in> set (filter ?match (concat (buckets t1)))"
      by simp
    then have "0 < length (filter ?match (concat (buckets t1)))"
      by (rule length_pos_if_in_set)
    with le1 show ?thesis
      by linarith
  qed
  have rm: "\<exists>t2. process_file exclusion t1 MODE_REMOVE e2 = Some (t2, e2) \<and>
      filter ?match (concat (buckets t2)) = []"
    if excl: "fopen exclusion e2 = Some (p @ r3 @ q)" for e2
  proof -
    let ?xs = "?T p @ [?tok] @ ?T q"
    have "process_file exclusion t1 MODE_REMOVE e2 = run (map (Pair MODE_REMOVE) ?xs) t1 e2"
      using process_file_run [OF excl, of t1 MODE_REMOVE] ctx [OF r3 agree3 p q]
      by (simp only: cfg)
    moreover from run_remove_absent [OF inv1, of ?xs e2]
    obtain t2 where "run (map (Pair MODE_REMOVE) ?xs) t1 e2 = Some (t2, e2)"
      and gone: "\<forall>w\<in>set ?xs. \<forall>u\<in>set (concat (buckets t2)). strcasecmp u w \<noteq> 0"
      by blast
    moreover from gone have "\<forall>u\<in>set (concat (buckets t2)). strcasecmp u ?tok \<noteq> 0"
      by simp
    then have "filter ?match (concat (buckets t2)) = []"
      by (simp add: filter_empty_conv)
    ultimately show ?thesis
      by simp
  qed
  from add run1 le1 eq1 rm
  show "\<exists>t1 e1.
      process_file source t MODE_ADD e = Some (t1, e1) \<and>
      length (filter ?match (concat (buckets t1))) \<le> 1 \<and>
      (stderr e1 = stderr e \<longrightarrow> length (filter ?match (concat (buckets t1))) = 1) \<and>
      (\<forall>e2. fopen exclusion e2 = Some (p @ r3 @ q) \<longrightarrow>
         (\<exists>t2. process_file exclusion t1 MODE_REMOVE e2 = Some (t2, e2) \<and>
            filter ?match (concat (buckets t2)) = []))"
    by (intro exI [of _ t1] exI [of _ e1]) simp
qed

theorem truncation_collapse_witness:
  "process_file ''one'' \<lparr>buckets = [[]], size_tab = 1\<rparr> MODE_REMOVE env2 =
     run (map (Pair MODE_REMOVE)
           (tokenize 4 63 ''x1 '' @ [map tolower (take 63 (replicate 63 (CHR ''a'') @ ''bc''))] @
            tokenize 4 63 ''.'')) \<lparr>buckets = [[]], size_tab = 1\<rparr> env2 \<and>
   (\<exists>t1 e1.
      process_file ''src'' \<lparr>buckets = [[]], size_tab = 1\<rparr> MODE_ADD env2 = Some (t1, e1) \<and>
      length (filter (\<lambda>u. strcasecmp u (map tolower (take 63 (replicate 63 (CHR ''a'') @ ''bc''))) = 0)
                (concat (buckets t1))) \<le> 1 \<and>
      (stderr e1 = stderr env2 \<longrightarrow>
         length (filter (\<lambda>u. strcasecmp u (map tolower (take 63 (replicate 63 (CHR ''a'') @ ''bc''))) = 0)
                   (concat (buckets t1))) = 1) \<and>
      (\<forall>e2. fopen ''excl'' e2 = Some (''- '' @ (replicate 62 (CHR ''a'') @ ''Axyz'') @ [CHR 0x0A]) \<longrightarrow>
         (\<exists>t2. process_file ''excl'' t1 MODE_REMOVE e2 = Some (t2, e2) \<and>
            filter (\<lambda>u. strcasecmp u (map tolower (take 63 (replicate 63 (CHR ''a'') @ ''bc''))) = 0)
              (concat (buckets t2)) = [])))"
proof -
  let ?r1 = "replicate 63 (CHR ''a'') @ ''bc''"
  let ?r2 = "replicate 63 (CHR ''A'') @ ''Z''"
  let ?r3 = "replicate 62 (CHR ''a'') @ ''Axyz''"
  have a1: "\<forall>c\<in>set ?r1. isalpha c"
    by code_simp
  have l1: "63 \<le> length ?r1"
    by simp
  have a2: "\<forall>c\<in>set ?r2. isalpha c"
    by code_simp
  have l2: "63 \<le> length ?r2"
    by simp
  have a3: "\<forall>c\<in>set ?r3. isalpha c"
    by code_simp
  have l3: "63 \<le> length ?r3"
    by simp
  have agree2: "map tolower (take 63 ?r2) = map tolower (take 63 ?r1)"
    by code_simp
  have agree3: "map tolower (take 63 ?r3) = map tolower (take 63 ?r1)"
    by code_simp
  have pre: "''x1 '' = [] \<or> \<not> isalpha (last ''x1 '')"
    by code_simp
  have post: "''.'' = [] \<or> \<not> isalpha (hd ''.'')"
    by code_simp
  have mid: "'' and '' \<noteq> []" "\<not> isalpha (hd '' and '')" "\<not> isalpha (last '' and '')"
    by code_simp+
  have p: "''- '' = [] \<or> \<not> isalpha (last ''- '')"
    by code_simp
  have q: "[CHR 0x0A] = [] \<or> \<not> isalpha (hd [CHR 0x0A])"
    by code_simp
  have inv: "table_inv \<lparr>buckets = [[]], size_tab = 1\<rparr>"
    by code_simp
  have src: "fopen ''src'' env2 = Some (''x1 '' @ ?r1 @ '' and '' @ ?r2 @ ''.'')"
    by (simp add: fopen_def env2_def env0_def)
  have one: "fopen ''one'' env2 = Some (''x1 '' @ ?r1 @ ''.'')"
    by (simp add: fopen_def env2_def env0_def)
  from truncation_collapse [OF a1 l1 a2 l2 a3 l3 agree2 agree3 pre post mid p q inv src,
      of "''one''" env2 "\<lparr>buckets = [[]], size_tab = 1\<rparr>" MODE_REMOVE "''excl''"] one
  show ?thesis
    by blast
qed

text \<open>
  The words do not always become a set member: when the node allocations of both
  inserts fail, the source words of the example leave the set empty.
\<close>

theorem truncation_collapse_counterexample:
  "tokenize 4 63 (''x1 '' @ (replicate 63 (CHR ''a'') @ ''bc'') @ '' and '' @
                  (replicate 63 (CHR ''A'') @ ''Z'') @ ''.'') =
     [replicate 63 (CHR ''a''), replicate 63 (CHR ''a'')] \<and>
   process_file ''src'' \<lparr>buckets = [[]], size_tab = 1\<rparr> MODE_ADD (env2\<lparr>allocs := [False, False]\<rparr>) =
     Some (\<lparr>buckets = [[]], size_tab = 1\<rparr>,
           env2\<lparr>stderr := [''Failed to allocate memory for new node'',
                             ''Failed to allocate memory for new node'']\<rparr>) \<and>
   enumerate_table \<lparr>buckets = [[]], size_tab = 1\<rparr> = Some []"
  by code_simp

text \<open>
  C1, as the code has it. The program is run on a source file holding
  \<open>alpha beta gamma alpha\<close> and an exclusion file holding \<open>BETA\<close>, in any environment
  (other files, earlier output, any behaviour of the allocator). It always returns, and
  when it has reported no error (no allocation failed), it exits with status 0 and the
  final vocabulary it prints is exactly \<open>gamma\<close> and \<open>alpha\<close>, each once, in this
  order of enumeration: the second \<open>alpha\<close> of the source has collapsed and \<open>BETA\<close> has
  removed \<open>beta\<close>.
\<close>

theorem set_difference_example:
  assumes src: "fopen source e = Some ''alpha beta gamma alpha''"
    and excl: "fopen exclusion e = Some ''BETA''"
  shows "\<exists>rc e'. main [prog, source, exclusion] e = Some (rc, e') \<and>
           (stderr e' = stderr e \<longrightarrow>
              rc = 0 \<and>
              stdout e' = stdout e @
                [''Processing source file: '' @ source,
                 ''Processing exclusion file: '' @ exclusion,
                 [], ''--- Final Vocabulary ---'', ''gamma'', ''alpha''])"
proof -
  obtain r e0 where cr: "create_hash_table HASH_TABLE_SIZE e = (r, e0)"
    by (cases "create_hash_table HASH_TABLE_SIZE e")
  from create_hash_table_env [OF cr]
  have env0': "stdout e0 = stdout e" "stderr e0 = stderr e"
    by simp_all
  show ?thesis
  proof (cases r)
    case None
    with cr have "main [prog, source, exclusion] e =
        Some (1, eprint ''Fatal: Could not create vocabulary hash table.'' e0)"
      by (simp add: main_def)
    moreover have "stderr (eprint ''Fatal: Could not create vocabulary hash table.'' e0) \<noteq> stderr e"
      by (simp add: eprint_def env0')
    ultimately show ?thesis
      by simp
  next
    case (Some t0)
    let ?p1 = "print (''Processing source file: '' @ source) e0"
    let ?ops1 = "map (Pair MODE_ADD) (tokenize 4 63 ''alpha beta gamma alpha'')"
    let ?ops2 = "map (Pair MODE_REMOVE) (tokenize 4 63 ''BETA'')"
    obtain lg1 e1 where l1: "log_run ?ops1 [] ?p1 = (lg1, e1)"
      by (cases "log_run ?ops1 [] ?p1")
    let ?p2 = "print (''Processing exclusion file: '' @ exclusion) e1"
    obtain lg2 e2 where l2: "log_run ?ops2 lg1 ?p2 = (lg2, e2)"
      by (cases "log_run ?ops2 lg1 ?p2")
    let ?p3 = "print ''--- Final Vocabulary ---'' (print [] e2)"
    let ?end = "?p3\<lparr>stdout := stdout ?p3 @
        by_reverse_insertion \<lparr>buckets = [], size_tab = HASH_TABLE_SIZE\<rparr> lg2\<rparr>"
    from cr Some have cr': "create_hash_table HASH_TABLE_SIZE e = (Some t0, e0)"
      by simp
    have m: "main [prog, source, exclusion] e = Some (0, ?end)"
      using cr' src excl l1 l2 by (rule main_result)
    from log_run_remove [of "tokenize 4 63 ''BETA''" lg1 ?p2] l2
    have e2: "e2 = ?p2" and lg2: "lg2 = fst (log_run ?ops2 lg1 env0)"
      by simp_all
    from log_run_env [of ?ops1 "[]" ?p1] l1 obtain xs where
      out1: "stdout e1 = stdout ?p1" and err1: "stderr e1 = stderr ?p1 @ xs"
      by auto
    have "rc = 0 \<and> stdout ?end = stdout e @
        [''Processing source file: '' @ source, ''Processing exclusion file: '' @ exclusion,
         [], ''--- Final Vocabulary ---'', ''gamma'', ''alpha'']"
      if quiet: "stderr ?end = stderr e" and rc: "rc = (0 :: int)" for rc
    proof -
      from quiet have "stderr e1 = stderr e"
        by (simp add: e2 print_def)
      moreover have "stderr ?p1 = stderr e"
        by (simp add: print_def env0')
      ultimately have "stderr e1 = stderr ?p1"
        by simp
      then have q1: "stderr (snd (log_run ?ops1 [] ?p1)) = stderr ?p1"
        by (simp only: l1 snd_conv)
      from log_run_quiet [OF q1] l1 have "lg1 = fst (log_run ?ops1 [] env0)"
        by simp
      then have lg1: "lg1 = [''alpha'', ''beta'', ''gamma'']"
        by (simp only: tokens_source log_source)
      from lg2 have "lg2 = [''alpha'', ''gamma'']"
        by (simp only: lg1 tokens_exclusion log_exclusion)
      then have a: "by_reverse_insertion \<lparr>buckets = [], size_tab = HASH_TABLE_SIZE\<rparr> lg2 =
          [''gamma'', ''alpha'']"
        by (simp only: enumerate_alpha_gamma)
      have b: "stdout ?p3 = stdout e @
          [''Processing source file: '' @ source, ''Processing exclusion file: '' @ exclusion,
           [], ''--- Final Vocabulary ---'']"
        by (simp add: e2 print_def out1 env0')
      show ?thesis
        using rc by (simp add: a b)
    qed
    with m show ?thesis
      by blast
  qed
qed

theorem set_difference_example_witness:
  "fopen ''src'' env1 = Some ''alpha beta gamma alpha'' \<and>
   fopen ''excl'' env1 = Some ''BETA'' \<and>
   main [''prog'', ''src'', ''excl''] env1 =
     Some (0, env1\<lparr>stdout := [''Processing source file: src'', ''Processing exclusion file: excl'',
                                 [], ''--- Final Vocabulary ---'', ''gamma'', ''alpha'']\<rparr>) \<and>
   (\<exists>rc e'. main [''prog'', ''src'', ''excl''] env1 = Some (rc, e') \<and>
      (stderr e' = stderr env1 \<longrightarrow>
         rc = 0 \<and>
         stdout e' = stdout env1 @
           [''Processing source file: '' @ ''src'', ''Processing exclusion file: '' @ ''excl'',
            [], ''--- Final Vocabulary ---'', ''gamma'', ''alpha'']))"
proof -
  have f1: "fopen ''src'' env1 = Some ''alpha beta gamma alpha''"
    by (simp add: fopen_def env1_def)
  have f2: "fopen ''excl'' env1 = Some ''BETA''"
    by (simp add: fopen_def env1_def)
  have cr: "create_hash_table HASH_TABLE_SIZE env1 =
      (Some \<lparr>buckets = replicate (unat HASH_TABLE_SIZE) [], size_tab = HASH_TABLE_SIZE\<rparr>, env1)"
    by (rule create_hash_table_none) (simp add: env1_def)
  have l1: "log_run (map (Pair MODE_ADD) (tokenize 4 63 ''alpha beta gamma alpha'')) []
      (print (''Processing source file: '' @ ''src'') env1) =
      ([''alpha'', ''beta'', ''gamma''], print (''Processing source file: '' @ ''src'') env1)"
    by code_simp
  have l2: "log_run (map (Pair MODE_REMOVE) (tokenize 4 63 ''BETA'')) [''alpha'', ''beta'', ''gamma'']
      (print (''Processing exclusion file: '' @ ''excl'')
         (print (''Processing source file: '' @ ''src'') env1)) =
      ([''alpha'', ''gamma''],
       print (''Processing exclusion file: '' @ ''excl'')
         (print (''Processing source file: '' @ ''src'') env1))"
    by code_simp
  have "main [''prog'', ''src'', ''excl''] env1 =
      Some (0, env1\<lparr>stdout := [''Processing source file: src'', ''Processing exclusion file: excl'',
                                 [], ''--- Final Vocabulary ---'', ''gamma'', ''alpha'']\<rparr>)"
    using main_result [OF cr f1 f2 l1 l2, of "''prog''"]
    by (simp add: enumerate_alpha_gamma print_def env1_def)
  with f1 f2 set_difference_example [OF f1 f2, of "''prog''"] show ?thesis
    by blast
qed

text \<open>
  Without the condition the final content can differ: when the allocation of the node
  for \<open>gamma\<close> fails, \<open>insert_word\<close> reports it and returns, the run goes on, and the
  final vocabulary is \<open>alpha\<close> alone.
\<close>

theorem set_difference_example_counterexample:
  "fopen ''src'' (env1\<lparr>allocs := [True, True, True, True, True, True, False]\<rparr>) =
     Some ''alpha beta gamma alpha'' \<and>
   fopen ''excl'' (env1\<lparr>allocs := [True, True, True, True, True, True, False]\<rparr>) = Some ''BETA'' \<and>
   main [''prog'', ''src'', ''excl''] (env1\<lparr>allocs := [True, True, True, True, True, True, False]\<rparr>) =
     Some (0, env1\<lparr>stderr := [''Failed to allocate memory for new node''],
                    stdout := [''Processing source file: src'', ''Processing exclusion file: excl'',
                               [], ''--- Final Vocabulary ---'', ''alpha'']\<rparr>)"
proof -
  let ?start = "env1\<lparr>allocs := [True, True, True, True, True, True, False]\<rparr>"
  let ?mid = "env1\<lparr>allocs := [True, True, True, True, False]\<rparr>"
  let ?fin = "env1\<lparr>stderr := [''Failed to allocate memory for new node''],
                  stdout := [''Processing source file: src'']\<rparr>"
  have f1: "fopen ''src'' ?start = Some ''alpha beta gamma alpha''"
    by (simp add: fopen_def env1_def)
  have f2: "fopen ''excl'' ?start = Some ''BETA''"
    by (simp add: fopen_def env1_def)
  have cr: "create_hash_table HASH_TABLE_SIZE ?start =
      (Some \<lparr>buckets = replicate (unat HASH_TABLE_SIZE) [], size_tab = HASH_TABLE_SIZE\<rparr>, ?mid)"
    using create_hash_table_two [of ?start "[True, True, True, True, False]" HASH_TABLE_SIZE]
    by simp
  have l1: "log_run (map (Pair MODE_ADD) (tokenize 4 63 ''alpha beta gamma alpha'')) []
      (print (''Processing source file: '' @ ''src'') ?mid) = ([''alpha'', ''beta''], ?fin)"
    by code_simp
  have l2: "log_run (map (Pair MODE_REMOVE) (tokenize 4 63 ''BETA'')) [''alpha'', ''beta'']
      (print (''Processing exclusion file: '' @ ''excl'') ?fin) =
      ([''alpha''], print (''Processing exclusion file: '' @ ''excl'') ?fin)"
    by code_simp
  have "main [''prog'', ''src'', ''excl''] ?start =
      Some (0, env1\<lparr>stderr := [''Failed to allocate memory for new node''],
                    stdout := [''Processing source file: src'', ''Processing exclusion file: excl'',
                               [], ''--- Final Vocabulary ---'', ''alpha'']\<rparr>)"
    using main_result [OF cr f1 f2 l1 l2, of "''prog''"]
    by (simp add: enumerate_alpha print_def env1_def)
  with f1 f2 show ?thesis
    by blast
qed

end
